theory Spec2Isabelle
  imports Main "HOL-Library.Word"
begin

section \<open>nap: a logical database over one primary and several replicas\<close>

text \<open>
  A shallow embedding of \<^verbatim>\<open>db.go\<close>. Go's \<^verbatim>\<open>int\<close> and \<^verbatim>\<open>uint64\<close> are 64-bit words
  (a 64-bit platform is assumed); \<^verbatim>\<open>int\<close> is read through \<open>sint\<close>, \<^verbatim>\<open>uint64\<close>
  through \<open>uint\<close>/\<open>unat\<close>. A conversion between the two keeps the bits.
\<close>

subsection \<open>Data model\<close>

text \<open>
  \<^verbatim>\<open>type DB struct { Pdbs []SQLDB; count uint64 }\<close>. A physical database is an
  interface value: a reference \<open>'r\<close> to a handle, or nil (\<open>None\<close>).
\<close>

record 'r DB =
  Pdbs :: "'r option list"
  count :: "64 word"

text \<open>The two run-time panics the methods of \<^verbatim>\<open>DB\<close> can raise.\<close>

datatype panic = IndexOutOfRange | NilDereference

text \<open>
  \<^verbatim>\<open>xs[i]\<close> for an \<^verbatim>\<open>int\<close> index: Go panics when \<open>i < 0\<close> or \<open>i \<ge> len(xs)\<close>.
\<close>

definition index :: "'a list \<Rightarrow> 64 word \<Rightarrow> panic + 'a" where
  "index xs i =
     (if 0 \<le> sint i \<and> nat (sint i) < length xs then Inr (xs ! nat (sint i))
      else Inl IndexOutOfRange)"

text \<open>\<^verbatim>\<open>len(xs)\<close> as an \<^verbatim>\<open>int\<close>.\<close>

definition slice_len :: "'a list \<Rightarrow> 64 word" where
  "slice_len xs = of_nat (length xs)"

text \<open>\<^verbatim>\<open>xs[i]\<close> for an index that is a natural number (a loop or slot index).\<close>

definition slot :: "'a list \<Rightarrow> nat \<Rightarrow> panic + 'a" where
  "slot xs i = (if i < length xs then Inr (xs ! i) else Inl IndexOutOfRange)"

subsection \<open>Replica selection\<close>

text \<open>
  \<^verbatim>\<open>
  func (db *DB) replica(n int) int {
      if n <= 1 { return 0 }
      return int(1 + (atomic.AddUint64(&db.count, 1) % uint64(n-1)))
  }
  \<close>
  \<^verbatim>\<open>atomic.AddUint64\<close> adds with wrap-around and returns the new value; the method is
  one atomic step of the model. The result is the index and the updated receiver.
\<close>

definition replica :: "'r DB \<Rightarrow> 64 word \<Rightarrow> 64 word \<times> 'r DB" where
  "replica db n =
     (if n \<le>s 1 then (0, db)
      else let c = count db + 1
           in (1 + (c mod (n - 1)), db\<lparr>count := c\<rparr>))"

text \<open>
  \<open>k\<close> selections in a row by one caller, threading the receiver:
  \<^verbatim>\<open>for j := 0; j < k; j++ { out = append(out, db.replica(n)) }\<close>.
\<close>

fun selections :: "'r DB \<Rightarrow> 64 word \<Rightarrow> nat \<Rightarrow> 64 word list" where
  "selections db n 0 = []"
| "selections db n (Suc k) = (case replica db n of (i, db') \<Rightarrow> i # selections db' n k)"

subsection \<open>The external collaborators\<close>

text \<open>
  The arguments that the logical database only passes through: a \<^verbatim>\<open>context.Context\<close>,
  \<^verbatim>\<open>*sql.TxOptions\<close> (possibly nil) and the \<^verbatim>\<open>interface{}\<close> query parameters are
  opaque tags; \<^verbatim>\<open>time.Duration\<close> is an \<^verbatim>\<open>int64\<close>.
\<close>

datatype Context = Context nat
datatype TxOptions = TxOptions nat
datatype arg = Arg nat

text \<open>One constructor for each method of \<^verbatim>\<open>interface SQLDB\<close>, with its arguments.\<close>

datatype call =
    SQLDB_Close
  | SQLDB_Driver
  | SQLDB_Begin
  | SQLDB_BeginTx Context "TxOptions option"
  | SQLDB_Exec string "arg list"
  | SQLDB_ExecContext Context string "arg list"
  | SQLDB_Ping
  | SQLDB_PingContext Context
  | SQLDB_Prepare string
  | SQLDB_PrepareContext Context string
  | SQLDB_Query string "arg list"
  | SQLDB_QueryContext Context string "arg list"
  | SQLDB_QueryRow string "arg list"
  | SQLDB_QueryRowContext Context string "arg list"
  | SQLDB_SetConnMaxLifetime "64 word"
  | SQLDB_SetMaxIdleConns "64 word"
  | SQLDB_SetMaxOpenConns "64 word"

text \<open>
  Go's \<^verbatim>\<open>error\<close>: a cause \<open>'c\<close> raised by the database client, or the compound failure
  that \<^verbatim>\<open>scatter\<close> builds. \<^verbatim>\<open>nil\<close> is \<open>None\<close> of \<open>'c error option\<close>.

  Modelled from the spec: the type of the compound failure is declared with \<^verbatim>\<open>scatter\<close>,
  outside the sources. The spec (9): "a tagged variant holding an ordered sequence of
  causes".
\<close>

datatype 'c error = Cause 'c | Multi "'c error list"

text \<open>
  What the outside world has seen so far: every \<^verbatim>\<open>sql.Open\<close> and every method call on a
  physical handle, each with what it returned, oldest first. A Go result pair
  \<^verbatim>\<open>(T, error)\<close> is a pair of options; a method with fewer results leaves the rest
  \<open>None\<close>.
\<close>

datatype ('r, 'v, 'c) event =
    OpenEv string string "'r option" "'c error option"
  | CallEv 'r call "'v option" "'c error option"

text \<open>
  The database client is not part of the code: it is a parameter. What a call returns may
  depend on everything that happened before it.
\<close>

record ('r, 'v, 'c) env =
  sql_Open :: "('r, 'v, 'c) event list \<Rightarrow> string \<Rightarrow> string \<Rightarrow> 'r option \<times> 'c error option"
  sqldb :: "('r, 'v, 'c) event list \<Rightarrow> 'r \<Rightarrow> call \<Rightarrow> 'v option \<times> 'c error option"

text \<open>A method call \<^verbatim>\<open>h.M(...)\<close> on an interface value: a nil interface panics.\<close>

definition invoke ::
  "('r, 'v, 'c) env \<Rightarrow> 'r option \<Rightarrow> call \<Rightarrow> ('r, 'v, 'c) event list
     \<Rightarrow> panic + (('v option \<times> 'c error option) \<times> ('r, 'v, 'c) event list)" where
  "invoke env h c tr =
     (case h of
        None \<Rightarrow> Inl NilDereference
      | Some r \<Rightarrow>
          (case sqldb env tr r c of
             (v, err) \<Rightarrow> Inr ((v, err), tr @ [CallEv r c v err])))"

subsection \<open>The scatter executor\<close>

text \<open>
  The function \<^verbatim>\<open>scatter(n, fn)\<close> is called by \<^verbatim>\<open>db.go\<close> but its body is not among the
  sources. The spec (4.1, 9): run \<open>fn i\<close> for every index \<open>i \<in> [0, n)\<close> concurrently,
  each reporting success or a failure value into a collection sized to the slot count,
  join, and combine: no failure is success, exactly one failure is propagated as it is,
  more than one become one compound failure that keeps every cause.

  Concurrency is modelled by interleaving: each \<open>fn i\<close> is one atomic step, and
  \<open>order\<close> is the order in which the \<open>n\<close> steps take effect, a permutation of
  \<open>[0..<n]\<close> that the scheduler chooses, so that every write below is in range. A panic
  in any step ends the program.
\<close>

text \<open>
  Modelled from the spec: the dispatch and join of \<^verbatim>\<open>scatter\<close>, whose body is missing.
  Invocation \<open>i\<close> runs on the state the earlier ones left and reports into slot \<open>i\<close>
  of the result list \<open>errs\<close>.
\<close>

fun scatter_run ::
  "(nat \<Rightarrow> 's \<Rightarrow> panic + ('e option \<times> 's)) \<Rightarrow> nat list \<Rightarrow> 'e option list \<Rightarrow> 's
     \<Rightarrow> panic + ('e option list \<times> 's)" where
  "scatter_run fn [] errs s = Inr (errs, s)"
| "scatter_run fn (i # js) errs s =
     (case fn i s of
        Inl p \<Rightarrow> Inl p
      | Inr (e, s') \<Rightarrow> scatter_run fn js (errs[i := e]) s')"

text \<open>
  Modelled from the spec: the failures among the reported results of \<^verbatim>\<open>scatter\<close>, whose
  body is missing, in slot order.
\<close>

fun failures :: "'e option list \<Rightarrow> 'e list" where
  "failures [] = []"
| "failures (None # xs) = failures xs"
| "failures (Some e # xs) = e # failures xs"

text \<open>
  Modelled from the spec: the aggregation policy of \<^verbatim>\<open>scatter\<close>, whose body is missing.
  "If exactly one invocation fails, propagate that failure as-is; if more than one fails,
  combine all failures into one compound failure that preserves each underlying cause.
  If none fail, report success."
\<close>

fun combine :: "'c error list \<Rightarrow> 'c error option" where
  "combine [] = None"
| "combine [e] = Some e"
| "combine es = Some (Multi es)"

text \<open>
  Modelled from the spec: \<^verbatim>\<open>scatter(n, fn)\<close>, whose body is missing: a result list of
  \<open>n\<close> slots, the run of the \<open>n\<close> invocations, and the aggregation of what they
  reported.
\<close>

definition scatter ::
  "nat \<Rightarrow> (nat \<Rightarrow> 's \<Rightarrow> panic + ('c error option \<times> 's)) \<Rightarrow> nat list \<Rightarrow> 's
     \<Rightarrow> panic + ('c error option \<times> 's)" where
  "scatter n fn order s =
     (case scatter_run fn order (replicate n None) s of
        Inl p \<Rightarrow> Inl p
      | Inr (errs, s') \<Rightarrow> Inr (combine (failures errs), s'))"

text \<open>
  Modelled from the spec: the two accessors of the compound failure, declared with
  \<^verbatim>\<open>scatter\<close> outside the sources. The spec (9): expose both "is this a multi-cause
  failure" and "list all causes".
\<close>

fun is_multi :: "'c error \<Rightarrow> bool" where
  "is_multi (Multi es) = True"
| "is_multi (Cause c) = False"

text \<open>
  Modelled from the spec: "list all causes" (9); a failure that is not compound is its own
  only cause.
\<close>

fun causes :: "'c error \<Rightarrow> 'c error list" where
  "causes (Multi es) = es"
| "causes (Cause c) = [Cause c]"

text \<open>
  What each invocation returned, in the order the invocations ran: the observation
  against which the result of \<open>scatter\<close> is stated.
\<close>

fun outcomes :: "(nat \<Rightarrow> 's \<Rightarrow> panic + ('e option \<times> 's)) \<Rightarrow> nat list \<Rightarrow> 's \<Rightarrow> 'e option list" where
  "outcomes fn [] s = []"
| "outcomes fn (i # js) s =
     (case fn i s of
        Inl p \<Rightarrow> []
      | Inr (e, s') \<Rightarrow> e # outcomes fn js s')"

subsection \<open>Open\<close>

text \<open>
  \<^verbatim>\<open>strings.Split(s, sep)\<close> for a separator of one byte, which is how \<^verbatim>\<open>Open\<close> calls it:
  the pieces of \<open>s\<close> between the occurrences of \<open>sep\<close>; a string without \<open>sep\<close>, the
  empty string too, is a single piece. \<open>cur\<close> is the piece being read.
\<close>

fun split_from :: "string \<Rightarrow> char \<Rightarrow> string \<Rightarrow> string list" where
  "split_from cur sep [] = [cur]"
| "split_from cur sep (c # cs) =
     (if c = sep then cur # split_from [] sep cs else split_from (cur @ [c]) sep cs)"

definition Split :: "string \<Rightarrow> char \<Rightarrow> string list" where
  "Split s sep = split_from [] sep s"

text \<open>
  \<^verbatim>\<open>
  func Open(driverName, dataSourceNames string) (*DB, error) {
      conns := strings.Split(dataSourceNames, ";")
      db := &DB{Pdbs: make([]SQLDB, len(conns))}
      err := scatter(len(db.Pdbs), func(i int) (err error) {
          db.Pdbs[i], err = sql.Open(driverName, conns[i])
          return err
      })
      if err != nil { return nil, err }
      return db, nil
  }
  \<close>
  The closure's state is the slot list under construction and the outside world.
\<close>

definition Open_fn ::
  "('r, 'v, 'c) env \<Rightarrow> string \<Rightarrow> string list \<Rightarrow> nat
     \<Rightarrow> 'r option list \<times> ('r, 'v, 'c) event list
     \<Rightarrow> panic + ('c error option \<times> 'r option list \<times> ('r, 'v, 'c) event list)" where
  "Open_fn env driverName conns i s =
     (case s of (pdbs, tr) \<Rightarrow>
        (case slot conns i of
           Inl p \<Rightarrow> Inl p
         | Inr dsn \<Rightarrow>
             (case sql_Open env tr driverName dsn of
                (h, err) \<Rightarrow>
                  if i < length pdbs
                  then Inr (err, pdbs[i := h], tr @ [OpenEv driverName dsn h err])
                  else Inl IndexOutOfRange)))"

definition Open ::
  "('r, 'v, 'c) env \<Rightarrow> nat list \<Rightarrow> string \<Rightarrow> string \<Rightarrow> ('r, 'v, 'c) event list
     \<Rightarrow> panic + (('r DB option \<times> 'c error option) \<times> ('r, 'v, 'c) event list)" where
  "Open env order driverName dataSourceNames tr =
     (let conns = Split dataSourceNames (CHR '';'');
          pdbs = replicate (length conns) None
      in case scatter (length pdbs) (Open_fn env driverName conns) order (pdbs, tr) of
           Inl p \<Rightarrow> Inl p
         | Inr (Some err, pdbs', tr') \<Rightarrow> Inr ((None, Some err), tr')
         | Inr (None, pdbs', tr') \<Rightarrow> Inr ((Some \<lparr>Pdbs = pdbs', count = 0\<rparr>, None), tr'))"

subsection \<open>Operations on every physical database\<close>

text \<open>
  The closure of \<^verbatim>\<open>Close\<close>, \<^verbatim>\<open>Ping\<close> and \<^verbatim>\<open>PingContext\<close>:
  \<^verbatim>\<open>func(i int) error { return db.Pdbs[i].M() }\<close>.
\<close>

definition each_fn ::
  "('r, 'v, 'c) env \<Rightarrow> 'r DB \<Rightarrow> call \<Rightarrow> nat \<Rightarrow> ('r, 'v, 'c) event list
     \<Rightarrow> panic + ('c error option \<times> ('r, 'v, 'c) event list)" where
  "each_fn env db c i tr =
     (case slot (Pdbs db) i of
        Inl p \<Rightarrow> Inl p
      | Inr h \<Rightarrow>
          (case invoke env h c tr of
             Inl p \<Rightarrow> Inl p
           | Inr ((v, err), tr') \<Rightarrow> Inr (err, tr')))"

definition Close ::
  "('r, 'v, 'c) env \<Rightarrow> nat list \<Rightarrow> 'r DB \<Rightarrow> ('r, 'v, 'c) event list
     \<Rightarrow> panic + ('c error option \<times> ('r, 'v, 'c) event list)" where
  "Close env order db tr = scatter (length (Pdbs db)) (each_fn env db SQLDB_Close) order tr"

definition Ping ::
  "('r, 'v, 'c) env \<Rightarrow> nat list \<Rightarrow> 'r DB \<Rightarrow> ('r, 'v, 'c) event list
     \<Rightarrow> panic + ('c error option \<times> ('r, 'v, 'c) event list)" where
  "Ping env order db tr = scatter (length (Pdbs db)) (each_fn env db SQLDB_Ping) order tr"

definition PingContext ::
  "('r, 'v, 'c) env \<Rightarrow> nat list \<Rightarrow> 'r DB \<Rightarrow> Context \<Rightarrow> ('r, 'v, 'c) event list
     \<Rightarrow> panic + ('c error option \<times> ('r, 'v, 'c) event list)" where
  "PingContext env order db ctx tr =
     scatter (length (Pdbs db)) (each_fn env db (SQLDB_PingContext ctx)) order tr"

text \<open>
  The pool setters: \<^verbatim>\<open>for i := range db.Pdbs { db.Pdbs[i].M(n) }\<close>, one handle after
  the other, nothing returned.
\<close>

fun range_call ::
  "('r, 'v, 'c) env \<Rightarrow> 'r option list \<Rightarrow> call \<Rightarrow> ('r, 'v, 'c) event list
     \<Rightarrow> panic + ('r, 'v, 'c) event list" where
  "range_call env [] c tr = Inr tr"
| "range_call env (h # hs) c tr =
     (case invoke env h c tr of
        Inl p \<Rightarrow> Inl p
      | Inr (rep, tr') \<Rightarrow> range_call env hs c tr')"

definition SetMaxIdleConns ::
  "('r, 'v, 'c) env \<Rightarrow> 'r DB \<Rightarrow> 64 word \<Rightarrow> ('r, 'v, 'c) event list
     \<Rightarrow> panic + ('r, 'v, 'c) event list" where
  "SetMaxIdleConns env db n tr = range_call env (Pdbs db) (SQLDB_SetMaxIdleConns n) tr"

definition SetMaxOpenConns ::
  "('r, 'v, 'c) env \<Rightarrow> 'r DB \<Rightarrow> 64 word \<Rightarrow> ('r, 'v, 'c) event list
     \<Rightarrow> panic + ('r, 'v, 'c) event list" where
  "SetMaxOpenConns env db n tr = range_call env (Pdbs db) (SQLDB_SetMaxOpenConns n) tr"

definition SetConnMaxLifetime ::
  "('r, 'v, 'c) env \<Rightarrow> 'r DB \<Rightarrow> 64 word \<Rightarrow> ('r, 'v, 'c) event list
     \<Rightarrow> panic + ('r, 'v, 'c) event list" where
  "SetConnMaxLifetime env db d tr = range_call env (Pdbs db) (SQLDB_SetConnMaxLifetime d) tr"

subsection \<open>Operations on the primary\<close>

text \<open>
  \<^verbatim>\<open>Driver\<close>, \<^verbatim>\<open>Begin\<close>, \<^verbatim>\<open>BeginTx\<close>, \<^verbatim>\<open>Exec\<close> and \<^verbatim>\<open>ExecContext\<close> are each
  \<^verbatim>\<open>return db.Pdbs[0].M(...)\<close>.
\<close>

definition Driver ::
  "('r, 'v, 'c) env \<Rightarrow> 'r DB \<Rightarrow> ('r, 'v, 'c) event list
     \<Rightarrow> panic + (('v option \<times> 'c error option) \<times> ('r, 'v, 'c) event list)" where
  "Driver env db tr =
     (case index (Pdbs db) 0 of
        Inl p \<Rightarrow> Inl p
      | Inr h \<Rightarrow> invoke env h (SQLDB_Driver) tr)"

definition Begin ::
  "('r, 'v, 'c) env \<Rightarrow> 'r DB \<Rightarrow> ('r, 'v, 'c) event list
     \<Rightarrow> panic + (('v option \<times> 'c error option) \<times> ('r, 'v, 'c) event list)" where
  "Begin env db tr =
     (case index (Pdbs db) 0 of
        Inl p \<Rightarrow> Inl p
      | Inr h \<Rightarrow> invoke env h (SQLDB_Begin) tr)"

definition BeginTx ::
  "('r, 'v, 'c) env \<Rightarrow> 'r DB \<Rightarrow> Context \<Rightarrow> TxOptions option \<Rightarrow> ('r, 'v, 'c) event list
     \<Rightarrow> panic + (('v option \<times> 'c error option) \<times> ('r, 'v, 'c) event list)" where
  "BeginTx env db ctx opts tr =
     (case index (Pdbs db) 0 of
        Inl p \<Rightarrow> Inl p
      | Inr h \<Rightarrow> invoke env h (SQLDB_BeginTx ctx opts) tr)"

definition Exec ::
  "('r, 'v, 'c) env \<Rightarrow> 'r DB \<Rightarrow> string \<Rightarrow> arg list \<Rightarrow> ('r, 'v, 'c) event list
     \<Rightarrow> panic + (('v option \<times> 'c error option) \<times> ('r, 'v, 'c) event list)" where
  "Exec env db query args tr =
     (case index (Pdbs db) 0 of
        Inl p \<Rightarrow> Inl p
      | Inr h \<Rightarrow> invoke env h (SQLDB_Exec query args) tr)"

definition ExecContext ::
  "('r, 'v, 'c) env \<Rightarrow> 'r DB \<Rightarrow> Context \<Rightarrow> string \<Rightarrow> arg list \<Rightarrow> ('r, 'v, 'c) event list
     \<Rightarrow> panic + (('v option \<times> 'c error option) \<times> ('r, 'v, 'c) event list)" where
  "ExecContext env db ctx query args tr =
     (case index (Pdbs db) 0 of
        Inl p \<Rightarrow> Inl p
      | Inr h \<Rightarrow> invoke env h (SQLDB_ExecContext ctx query args) tr)"

subsection \<open>Prepared statements\<close>

text \<open>
  \<^verbatim>\<open>&stmt{db: db, stmts: stmts}\<close>: the per-slot statements. The field \<^verbatim>\<open>db\<close> points back
  to the receiver, the one logical database of the model, and is not stored.
\<close>

record 'v stmt =
  stmts :: "'v option list"

text \<open>
  The closure of \<^verbatim>\<open>Prepare\<close> and \<^verbatim>\<open>PrepareContext\<close>:
  \<^verbatim>\<open>func(i int) (err error) { stmts[i], err = db.Pdbs[i].Prepare(query); return err }\<close>.
  Its state is the statement list under construction (\<open>ss\<close>, the local \<^verbatim>\<open>stmts\<close>)
  and the outside world.
\<close>

definition Prepare_fn ::
  "('r, 'v, 'c) env \<Rightarrow> 'r DB \<Rightarrow> call \<Rightarrow> nat
     \<Rightarrow> 'v option list \<times> ('r, 'v, 'c) event list
     \<Rightarrow> panic + ('c error option \<times> 'v option list \<times> ('r, 'v, 'c) event list)" where
  "Prepare_fn env db c i s =
     (case s of (ss, tr) \<Rightarrow>
        (case slot (Pdbs db) i of
           Inl p \<Rightarrow> Inl p
         | Inr h \<Rightarrow>
             (case invoke env h c tr of
                Inl p \<Rightarrow> Inl p
              | Inr ((v, err), tr') \<Rightarrow>
                  if i < length ss then Inr (err, ss[i := v], tr')
                  else Inl IndexOutOfRange)))"

text \<open>
  \<^verbatim>\<open>
  func (db *DB) Prepare(query string) (Stmt, error) {
      stmts := make([]*sql.Stmt, len(db.Pdbs))
      err := scatter(len(db.Pdbs), func(i int) (err error) { ... })
      if err != nil { return nil, err }
      return &stmt{db: db, stmts: stmts}, nil
  }
  \<close>
\<close>

definition Prepare ::
  "('r, 'v, 'c) env \<Rightarrow> nat list \<Rightarrow> 'r DB \<Rightarrow> string \<Rightarrow> ('r, 'v, 'c) event list
     \<Rightarrow> panic + (('v stmt option \<times> 'c error option) \<times> ('r, 'v, 'c) event list)" where
  "Prepare env order db query tr =
     (let ss = replicate (length (Pdbs db)) None
      in case scatter (length (Pdbs db)) (Prepare_fn env db (SQLDB_Prepare query)) order (ss, tr) of
           Inl p \<Rightarrow> Inl p
         | Inr (Some err, ss', tr') \<Rightarrow> Inr ((None, Some err), tr')
         | Inr (None, ss', tr') \<Rightarrow> Inr ((Some \<lparr>stmts = ss'\<rparr>, None), tr'))"

definition PrepareContext ::
  "('r, 'v, 'c) env \<Rightarrow> nat list \<Rightarrow> 'r DB \<Rightarrow> Context \<Rightarrow> string \<Rightarrow> ('r, 'v, 'c) event list
     \<Rightarrow> panic + (('v stmt option \<times> 'c error option) \<times> ('r, 'v, 'c) event list)" where
  "PrepareContext env order db ctx query tr =
     (let ss = replicate (length (Pdbs db)) None
      in case scatter (length (Pdbs db)) (Prepare_fn env db (SQLDB_PrepareContext ctx query)) order (ss, tr) of
           Inl p \<Rightarrow> Inl p
         | Inr (Some err, ss', tr') \<Rightarrow> Inr ((None, Some err), tr')
         | Inr (None, ss', tr') \<Rightarrow> Inr ((Some \<lparr>stmts = ss'\<rparr>, None), tr'))"

subsection \<open>Accessors and reads\<close>

text \<open>\<^verbatim>\<open>func (db *DB) Primary() SQLDB { return db.Pdbs[0] }\<close>\<close>

definition Primary :: "'r DB \<Rightarrow> panic + 'r option" where
  "Primary db = index (Pdbs db) 0"

definition Master :: "'r DB \<Rightarrow> panic + 'r option" where
  "Master db = Primary db"

text \<open>
  \<^verbatim>\<open>func (db *DB) Replica() SQLDB { return db.Pdbs[db.replica(len(db.Pdbs))] }\<close>
\<close>

definition Replica :: "'r DB \<Rightarrow> panic + ('r option \<times> 'r DB)" where
  "Replica db =
     (case replica db (slice_len (Pdbs db)) of
        (i, db') \<Rightarrow>
          (case index (Pdbs db) i of
             Inl p \<Rightarrow> Inl p
           | Inr h \<Rightarrow> Inr (h, db')))"

definition Slave :: "'r DB \<Rightarrow> panic + ('r option \<times> 'r DB)" where
  "Slave db = Replica db"

text \<open>
  \<^verbatim>\<open>Query\<close>, \<^verbatim>\<open>QueryContext\<close>, \<^verbatim>\<open>QueryRow\<close> and \<^verbatim>\<open>QueryRowContext\<close> are each
  \<^verbatim>\<open>return db.Replica().M(...)\<close>.
\<close>

definition Query ::
  "('r, 'v, 'c) env \<Rightarrow> 'r DB \<Rightarrow> string \<Rightarrow> arg list \<Rightarrow> ('r, 'v, 'c) event list
     \<Rightarrow> panic + (('v option \<times> 'c error option) \<times> 'r DB \<times> ('r, 'v, 'c) event list)" where
  "Query env db query args tr =
     (case Replica db of
        Inl p \<Rightarrow> Inl p
      | Inr (h, db') \<Rightarrow>
          (case invoke env h (SQLDB_Query query args) tr of
             Inl p \<Rightarrow> Inl p
           | Inr (rep, tr') \<Rightarrow> Inr (rep, db', tr')))"

definition QueryContext ::
  "('r, 'v, 'c) env \<Rightarrow> 'r DB \<Rightarrow> Context \<Rightarrow> string \<Rightarrow> arg list \<Rightarrow> ('r, 'v, 'c) event list
     \<Rightarrow> panic + (('v option \<times> 'c error option) \<times> 'r DB \<times> ('r, 'v, 'c) event list)" where
  "QueryContext env db ctx query args tr =
     (case Replica db of
        Inl p \<Rightarrow> Inl p
      | Inr (h, db') \<Rightarrow>
          (case invoke env h (SQLDB_QueryContext ctx query args) tr of
             Inl p \<Rightarrow> Inl p
           | Inr (rep, tr') \<Rightarrow> Inr (rep, db', tr')))"

definition QueryRow ::
  "('r, 'v, 'c) env \<Rightarrow> 'r DB \<Rightarrow> string \<Rightarrow> arg list \<Rightarrow> ('r, 'v, 'c) event list
     \<Rightarrow> panic + (('v option \<times> 'c error option) \<times> 'r DB \<times> ('r, 'v, 'c) event list)" where
  "QueryRow env db query args tr =
     (case Replica db of
        Inl p \<Rightarrow> Inl p
      | Inr (h, db') \<Rightarrow>
          (case invoke env h (SQLDB_QueryRow query args) tr of
             Inl p \<Rightarrow> Inl p
           | Inr (rep, tr') \<Rightarrow> Inr (rep, db', tr')))"

definition QueryRowContext ::
  "('r, 'v, 'c) env \<Rightarrow> 'r DB \<Rightarrow> Context \<Rightarrow> string \<Rightarrow> arg list \<Rightarrow> ('r, 'v, 'c) event list
     \<Rightarrow> panic + (('v option \<times> 'c error option) \<times> 'r DB \<times> ('r, 'v, 'c) event list)" where
  "QueryRowContext env db ctx query args tr =
     (case Replica db of
        Inl p \<Rightarrow> Inl p
      | Inr (h, db') \<Rightarrow>
          (case invoke env h (SQLDB_QueryRowContext ctx query args) tr of
             Inl p \<Rightarrow> Inl p
           | Inr (rep, tr') \<Rightarrow> Inr (rep, db', tr')))"

subsection \<open>The public operations as steps of one state\<close>

text \<open>
  Every method has the pointer receiver \<^verbatim>\<open>db *DB\<close>. A step takes the logical database
  and the outside world and returns the method's result with both as they are
  afterwards; \<open>order\<close> is the interleaving of the step's fan-out, if it has one.
\<close>

datatype op = Method call | Op_Slave | Op_Replica | Op_Master | Op_Primary

datatype ('r, 'v, 'c) ret =
    Reply "'v option" "'c error option"
  | Err "'c error option"
  | Handle "'r option"
  | Statement "'v stmt option" "'c error option"
  | Nothing

fun step ::
  "('r, 'v, 'c) env \<Rightarrow> nat list \<Rightarrow> op \<Rightarrow> 'r DB \<times> ('r, 'v, 'c) event list
     \<Rightarrow> panic + (('r, 'v, 'c) ret \<times> 'r DB \<times> ('r, 'v, 'c) event list)" where
  "step env order (Method SQLDB_Close) (db, tr) =
     map_sum id (\<lambda>(e, tr'). (Err e, db, tr')) (Close env order db tr)"
| "step env order (Method SQLDB_Driver) (db, tr) =
     map_sum id (\<lambda>((v, e), tr'). (Reply v e, db, tr')) (Driver env db tr)"
| "step env order (Method SQLDB_Begin) (db, tr) =
     map_sum id (\<lambda>((v, e), tr'). (Reply v e, db, tr')) (Begin env db tr)"
| "step env order (Method (SQLDB_BeginTx ctx opts)) (db, tr) =
     map_sum id (\<lambda>((v, e), tr'). (Reply v e, db, tr')) (BeginTx env db ctx opts tr)"
| "step env order (Method (SQLDB_Exec q as)) (db, tr) =
     map_sum id (\<lambda>((v, e), tr'). (Reply v e, db, tr')) (Exec env db q as tr)"
| "step env order (Method (SQLDB_ExecContext ctx q as)) (db, tr) =
     map_sum id (\<lambda>((v, e), tr'). (Reply v e, db, tr')) (ExecContext env db ctx q as tr)"
| "step env order (Method SQLDB_Ping) (db, tr) =
     map_sum id (\<lambda>(e, tr'). (Err e, db, tr')) (Ping env order db tr)"
| "step env order (Method (SQLDB_PingContext ctx)) (db, tr) =
     map_sum id (\<lambda>(e, tr'). (Err e, db, tr')) (PingContext env order db ctx tr)"
| "step env order (Method (SQLDB_Prepare q)) (db, tr) =
     map_sum id (\<lambda>((st, e), tr'). (Statement st e, db, tr')) (Prepare env order db q tr)"
| "step env order (Method (SQLDB_PrepareContext ctx q)) (db, tr) =
     map_sum id (\<lambda>((st, e), tr'). (Statement st e, db, tr'))
       (PrepareContext env order db ctx q tr)"
| "step env order (Method (SQLDB_Query q as)) (db, tr) =
     map_sum id (\<lambda>((v, e), db', tr'). (Reply v e, db', tr')) (Query env db q as tr)"
| "step env order (Method (SQLDB_QueryContext ctx q as)) (db, tr) =
     map_sum id (\<lambda>((v, e), db', tr'). (Reply v e, db', tr')) (QueryContext env db ctx q as tr)"
| "step env order (Method (SQLDB_QueryRow q as)) (db, tr) =
     map_sum id (\<lambda>((v, e), db', tr'). (Reply v e, db', tr')) (QueryRow env db q as tr)"
| "step env order (Method (SQLDB_QueryRowContext ctx q as)) (db, tr) =
     map_sum id (\<lambda>((v, e), db', tr'). (Reply v e, db', tr'))
       (QueryRowContext env db ctx q as tr)"
| "step env order (Method (SQLDB_SetConnMaxLifetime d)) (db, tr) =
     map_sum id (\<lambda>tr'. (Nothing, db, tr')) (SetConnMaxLifetime env db d tr)"
| "step env order (Method (SQLDB_SetMaxIdleConns n)) (db, tr) =
     map_sum id (\<lambda>tr'. (Nothing, db, tr')) (SetMaxIdleConns env db n tr)"
| "step env order (Method (SQLDB_SetMaxOpenConns n)) (db, tr) =
     map_sum id (\<lambda>tr'. (Nothing, db, tr')) (SetMaxOpenConns env db n tr)"
| "step env order Op_Slave (db, tr) =
     map_sum id (\<lambda>(h, db'). (Handle h, db', tr)) (Slave db)"
| "step env order Op_Replica (db, tr) =
     map_sum id (\<lambda>(h, db'). (Handle h, db', tr)) (Replica db)"
| "step env order Op_Master (db, tr) =
     map_sum id (\<lambda>h. (Handle h, db, tr)) (Master db)"
| "step env order Op_Primary (db, tr) =
     map_sum id (\<lambda>h. (Handle h, db, tr)) (Primary db)"

text \<open>A caller's sequence of operations; a panic ends it.\<close>

fun run ::
  "('r, 'v, 'c) env \<Rightarrow> (nat list \<times> op) list \<Rightarrow> 'r DB \<times> ('r, 'v, 'c) event list
     \<Rightarrow> panic + ('r DB \<times> ('r, 'v, 'c) event list)" where
  "run env [] s = Inr s"
| "run env ((order, a) # rest) s =
     (case step env order a s of
        Inl p \<Rightarrow> Inl p
      | Inr (r, s') \<Rightarrow> run env rest s')"

subsection \<open>A test double\<close>

text \<open>
  A database client for running the model on concrete inputs: a handle is named by its
  data source, \<^verbatim>\<open>sql.Open\<close> refuses the data source \<open>''down''\<close>, every call on the handle
  \<open>''flaky''\<close> fails, and every other call returns the number of events seen before it.
\<close>

definition double :: "(string, nat, string) env" where
  "double =
     \<lparr>sql_Open = (\<lambda>tr driverName dsn.
         if dsn = ''down'' then (None, Some (Cause ''refused'')) else (Some dsn, None)),
      sqldb = (\<lambda>tr r c.
         if r = ''flaky'' then (None, Some (Cause ''broken pipe'')) else (Some (length tr), None))\<rparr>"

section \<open>Properties of replica selection\<close>

subsection \<open>Reading the words as integers\<close>

lemma uint_of_nonneg_sint:
  fixes n :: "64 word"
  assumes "0 \<le> sint n"
  shows "uint n = sint n"
proof -
  have "sint n < 2 ^ 64"
    using sint_lt [of n] by simp
  then have "take_bit 64 (sint n) = sint n"
    using assms by (simp add: take_bit_int_eq_self)
  then show ?thesis
    using uint_sint [of n] by simp
qed

lemma sint_of_small_uint:
  fixes x :: "64 word"
  assumes "uint x < 2 ^ 63"
  shows "sint x = uint x"
proof -
  have "- (2 ^ 63) \<le> (0 :: int)"
    by simp
  then have "- (2 ^ 63) \<le> uint x"
    using uint_nonnegative [of x] by (rule order_trans)
  then have "signed_take_bit 63 (uint x) = uint x"
    using assms by (intro signed_take_bit_int_eq_self)
  then show ?thesis
    by (simp add: sint_uint)
qed

lemma uint_pred_of_ge2:
  fixes n :: "64 word"
  assumes "2 \<le> sint n"
  shows "uint (n - 1) = sint n - 1"
proof -
  have u: "uint n = sint n"
    using assms by (simp add: uint_of_nonneg_sint)
  then have "uint (1 :: 64 word) \<le> uint n"
    using assms by simp
  then have "uint (n - 1) = uint n - uint (1 :: 64 word)"
    by (simp only: uint_sub_lem)
  then show ?thesis
    using u by simp
qed

lemma uint_succ_mod:
  fixes c m :: "64 word"
  assumes "0 < uint m" "uint m < 2 ^ 63"
  shows "uint (1 + c mod m) = 1 + uint c mod uint m"
proof -
  have "uint c mod uint m < uint m"
    using assms(1) by simp
  then have "uint (1 :: 64 word) + uint (c mod m) < 2 ^ LENGTH(64)"
    using assms(2) by (simp add: uint_mod_distrib)
  then have "uint (1 + c mod m) = uint (1 :: 64 word) + uint (c mod m)"
    by (simp only: uint_add_lem)
  then show ?thesis
    by (simp add: uint_mod_distrib)
qed

text \<open>The index that \<open>replica\<close> returns for \<open>n \<ge> 2\<close>, read as an integer.\<close>

lemma replica_index:
  fixes n c :: "64 word"
  assumes "2 \<le> sint n"
  shows "uint (1 + c mod (n - 1)) = 1 + uint c mod (sint n - 1)"
    and "sint (1 + c mod (n - 1)) = 1 + uint c mod (sint n - 1)"
proof -
  have m: "uint (n - 1) = sint n - 1"
    using assms by (rule uint_pred_of_ge2)
  have b: "sint n < 2 ^ 63"
    using sint_lt [of n] by simp
  have pos: "0 < uint (n - 1)" and small: "uint (n - 1) < 2 ^ 63"
    using assms b m by simp_all
  show u: "uint (1 + c mod (n - 1)) = 1 + uint c mod (sint n - 1)"
    using uint_succ_mod [OF pos small, of c] m by simp
  have "uint c mod (sint n - 1) < sint n - 1"
    using assms by simp
  then have "uint (1 + c mod (n - 1)) < 2 ^ 63"
    using u b by simp
  then show "sint (1 + c mod (n - 1)) = 1 + uint c mod (sint n - 1)"
    using u by (simp add: sint_of_small_uint)
qed

lemma replica_le1:
  fixes n :: "64 word"
  assumes "sint n \<le> 1"
  shows "replica db n = (0, db)"
  using assms by (simp add: replica_def word_sle_eq)

lemma replica_ge2:
  fixes n :: "64 word"
  assumes "2 \<le> sint n"
  shows "replica db n = (1 + (count db + 1) mod (n - 1), db\<lparr>count := count db + 1\<rparr>)"
  using assms by (simp add: replica_def word_sle_eq Let_def)

lemma replica_index_bounds:
  fixes n c :: "64 word"
  assumes "2 \<le> sint n"
  shows "1 \<le> sint (1 + c mod (n - 1))" and "sint (1 + c mod (n - 1)) \<le> sint n - 1"
proof -
  have "0 \<le> uint c mod (sint n - 1)" and "uint c mod (sint n - 1) < sint n - 1"
    using assms by simp_all
  then show "1 \<le> sint (1 + c mod (n - 1))" and "sint (1 + c mod (n - 1)) \<le> sint n - 1"
    unfolding replica_index(2) [OF assms] by simp_all
qed

lemma replica_Pdbs: "Pdbs (snd (replica db n)) = Pdbs db"
  by (simp add: replica_def Let_def)

text \<open>
  C1. \<open>replica db n\<close> returns index 0 and leaves the receiver alone when \<open>n \<le> 1\<close>.
  When \<open>n \<ge> 2\<close> it adds one to the counter (with 64-bit wrap-around) and returns
  \<open>1 + (counter mod (n - 1))\<close>, where the counter is the value after the increment.
\<close>

theorem replica_returns:
  fixes n :: "64 word"
  shows "(sint n \<le> 1 \<longrightarrow> replica db n = (0, db)) \<and>
         (2 \<le> sint n \<longrightarrow>
            snd (replica db n) = db\<lparr>count := count db + 1\<rparr> \<and>
            uint (count (snd (replica db n))) = (uint (count db) + 1) mod 2 ^ 64 \<and>
            sint (fst (replica db n)) = 1 + uint (count (snd (replica db n))) mod (sint n - 1))"
proof (intro conjI impI)
  assume "sint n \<le> 1"
  then show "replica db n = (0, db)"
    by (simp add: replica_def word_sle_eq)
next
  assume n: "2 \<le> sint n"
  then have r: "replica db n = (1 + (count db + 1) mod (n - 1), db\<lparr>count := count db + 1\<rparr>)"
    by (simp add: replica_def word_sle_eq Let_def)
  show "snd (replica db n) = db\<lparr>count := count db + 1\<rparr>"
    by (simp add: r)
  show "uint (count (snd (replica db n))) = (uint (count db) + 1) mod 2 ^ 64"
    by (simp add: r uint_word_ariths)
  show "sint (fst (replica db n)) = 1 + uint (count (snd (replica db n))) mod (sint n - 1)"
    using replica_index(2) [OF n, of "count db + 1"] by (simp add: r)
qed

theorem replica_returns_witness:
  "sint (1 :: 64 word) \<le> 1 \<and> 2 \<le> sint (4 :: 64 word) \<and>
   replica \<lparr>Pdbs = [] :: nat option list, count = 5\<rparr> 1 = (0, \<lparr>Pdbs = [], count = 5\<rparr>) \<and>
   snd (replica \<lparr>Pdbs = [] :: nat option list, count = 5\<rparr> 4) = \<lparr>Pdbs = [], count = 6\<rparr> \<and>
   sint (fst (replica \<lparr>Pdbs = [] :: nat option list, count = 5\<rparr> 4)) = 1"
  using replica_returns [of 1 "\<lparr>Pdbs = [] :: nat option list, count = 5\<rparr>"]
    replica_returns [of 4 "\<lparr>Pdbs = [] :: nat option list, count = 5\<rparr>"]
  by simp

subsection \<open>Round robin\<close>

lemma upt_0_Suc_Cons: "[0..<Suc k] = 0 # map Suc [0..<k]"
  by (simp add: upt_conv_Cons map_Suc_upt del: upt_Suc)

lemma selections_eq_map:
  fixes n :: "64 word"
  assumes "2 \<le> sint n"
  shows "selections db n k = map (\<lambda>t. 1 + (count db + 1 + of_nat t) mod (n - 1)) [0..<k]"
proof (induction k arbitrary: db)
  case 0
  show ?case by simp
next
  case (Suc k)
  have r: "replica db n = (1 + (count db + 1) mod (n - 1), db\<lparr>count := count db + 1\<rparr>)"
    using assms by (simp add: replica_def word_sle_eq Let_def)
  have "selections db n (Suc k) =
          (1 + (count db + 1) mod (n - 1)) # selections (db\<lparr>count := count db + 1\<rparr>) n k"
    by (simp add: r)
  also have "selections (db\<lparr>count := count db + 1\<rparr>) n k =
          map (\<lambda>t. 1 + (count db + 1 + of_nat (Suc t)) mod (n - 1)) [0..<k]"
    by (simp add: Suc.IH ac_simps)
  finally show ?case
    by (simp only: upt_0_Suc_Cons list.map map_map o_def) simp
qed

text \<open>How often a residue occurs among \<open>k\<close> consecutive integers starting at \<open>C\<close>.\<close>

lemma residue_hit:
  fixes C r m :: int
  assumes "0 < m" "0 \<le> r" "r < m"
  shows "((C + int t) mod m = r) = (t mod nat m = nat ((r - C) mod m))"
proof -
  have a: "((C + int t) mod m = r) = (int t mod m = (r - C) mod m)"
  proof
    assume h: "(C + int t) mod m = r"
    have "(r - C) mod m = ((C + int t) mod m - C) mod m"
      by (simp add: h)
    also have "\<dots> = (C + int t - C) mod m"
      by (rule mod_diff_left_eq)
    finally show "int t mod m = (r - C) mod m"
      by simp
  next
    assume h: "int t mod m = (r - C) mod m"
    have "(C + int t) mod m = (C + int t mod m) mod m"
      by (simp add: mod_add_right_eq)
    also have "\<dots> = (C + (r - C)) mod m"
      by (simp only: h mod_add_right_eq)
    finally show "(C + int t) mod m = r"
      using assms by simp
  qed
  have b: "int t mod m = int (t mod nat m)"
    using assms(1) by (simp add: zmod_int)
  have c: "0 \<le> (r - C) mod m"
    using assms(1) by simp
  show ?thesis
    unfolding a b using c by linarith
qed

lemma count_step:
  fixes p M k :: nat
  assumes "p < M"
  shows "k div M + (if p < k mod M then 1 else 0) + (if k mod M = p then 1 else 0) =
         Suc k div M + (if p < Suc k mod M then 1 else (0 :: nat))"
proof (cases "Suc (k mod M) = M")
  case True
  then have "Suc k mod M = 0" and "Suc k div M = Suc (k div M)"
    by (simp_all add: mod_Suc div_Suc)
  then show ?thesis
    using True assms by auto
next
  case False
  then have "Suc k mod M = Suc (k mod M)" and "Suc k div M = k div M"
    by (simp_all add: mod_Suc div_Suc)
  then show ?thesis
    by auto
qed

lemma residue_count:
  fixes C r m :: int
  assumes "0 < m" "0 \<le> r" "r < m"
  shows "count_list (map (\<lambda>t. (C + int t) mod m) [0..<k]) r =
         k div nat m + (if nat ((r - C) mod m) < k mod nat m then 1 else 0)"
proof (induction k)
  case 0
  show ?case by simp
next
  case (Suc k)
  have p: "nat ((r - C) mod m) < nat m"
    using assms(1) by simp
  have "count_list (map (\<lambda>t. (C + int t) mod m) [0..<Suc k]) r =
        count_list (map (\<lambda>t. (C + int t) mod m) [0..<k]) r +
        (if k mod nat m = nat ((r - C) mod m) then 1 else 0)"
    using residue_hit [OF assms, of C k] by simp
  then show ?case
    using count_step [OF p, of k] by (simp only: Suc.IH)
qed

lemma residue_count_balanced:
  fixes C r r' m :: int
  assumes "0 < m" "0 \<le> r" "r < m" "0 \<le> r'" "r' < m"
  shows "count_list (map (\<lambda>t. (C + int t) mod m) [0..<k]) r \<le>
         count_list (map (\<lambda>t. (C + int t) mod m) [0..<k]) r' + 1"
  by (simp add: residue_count assms)

lemma count_list_map_cong:
  assumes "\<And>x. x \<in> set xs \<Longrightarrow> (f x = a) = (g x = b)"
  shows "count_list (map f xs) a = count_list (map g xs) b"
  using assms by (induction xs) auto

lemma selection_residue:
  fixes n c :: "64 word"
  assumes n: "2 \<le> sint n"
    and run: "unat c + k < 2 ^ 64 \<or> (sint n - 1) dvd 2 ^ 64"
    and t: "t < k"
  shows "uint (1 + (c + 1 + of_nat t) mod (n - 1)) = 1 + (uint c + 1 + int t) mod (sint n - 1)"
proof -
  have "c + 1 + of_nat t = (word_of_int (uint c + 1 + int t) :: 64 word)"
    by simp
  then have u: "uint (c + 1 + of_nat t) = (uint c + 1 + int t) mod 2 ^ 64"
    by (simp only: uint_word_of_int) simp
  have "uint (c + 1 + of_nat t) mod (sint n - 1) = (uint c + 1 + int t) mod (sint n - 1)"
    using run
  proof
    assume "unat c + k < 2 ^ 64"
    then have "unat c + 1 + t < 2 ^ 64"
      using t by linarith
    then have "int (unat c + 1 + t) < 2 ^ 64"
      by (simp only: of_nat_less_numeral_power_cancel_iff)
    then have "uint c + 1 + int t < 2 ^ 64"
      by simp
    moreover have "0 \<le> uint c + 1 + int t"
      by simp
    ultimately have "(uint c + 1 + int t) mod 2 ^ 64 = uint c + 1 + int t"
      by (rule mod_pos_pos_trivial [rotated])
    then show ?thesis
      by (simp only: u)
  next
    assume "(sint n - 1) dvd 2 ^ 64"
    then show ?thesis
      by (simp only: u mod_mod_cancel)
  qed
  then show ?thesis
    using replica_index(1) [OF n, of "c + 1 + of_nat t"] by simp
qed

text \<open>
  C5, as the code has it. For \<open>n \<ge> 2\<close>, every index of a run of sequential selections lies
  in \<open>1..n-1\<close>, so index 0 is never returned. If the counter does not wrap around
  \<open>2^64\<close> during the run, or \<open>n - 1\<close> divides \<open>2^64\<close>, the numbers of visits of any two
  indices of \<open>1..n-1\<close> differ by at most 1.
\<close>

theorem selections_round_robin:
  fixes n i j :: "64 word"
  assumes n: "2 \<le> sint n"
  shows "(\<forall>x \<in> set (selections db n k). 1 \<le> sint x \<and> sint x \<le> sint n - 1) \<and>
         ((unat (count db) + k < 2 ^ 64 \<or> (sint n - 1) dvd 2 ^ 64) \<and>
          1 \<le> sint i \<and> sint i \<le> sint n - 1 \<and> 1 \<le> sint j \<and> sint j \<le> sint n - 1 \<longrightarrow>
            count_list (selections db n k) i \<le> count_list (selections db n k) j + 1)"
proof (intro conjI impI ballI)
  fix x
  assume "x \<in> set (selections db n k)"
  then obtain c :: "64 word" where x: "x = 1 + c mod (n - 1)"
    by (auto simp: selections_eq_map [OF n])
  have "0 \<le> uint c mod (sint n - 1)" and "uint c mod (sint n - 1) < sint n - 1"
    using n by simp_all
  then show "1 \<le> sint x" and "sint x \<le> sint n - 1"
    unfolding x replica_index(2) [OF n] by simp_all
next
  assume h: "(unat (count db) + k < 2 ^ 64 \<or> (sint n - 1) dvd 2 ^ 64) \<and>
          1 \<le> sint i \<and> sint i \<le> sint n - 1 \<and> 1 \<le> sint j \<and> sint j \<le> sint n - 1"
  define C where "C = uint (count db) + 1"
  define m where "m = sint n - 1"
  have m: "0 < m"
    using n by (simp add: m_def)
  have hits: "count_list (selections db n k) a =
              count_list (map (\<lambda>t. (C + int t) mod m) [0..<k]) (sint a - 1)"
    if a: "1 \<le> sint a" for a :: "64 word"
  proof -
    have ua: "uint a = sint a"
      using a by (simp add: uint_of_nonneg_sint)
    have "(1 + (count db + 1 + of_nat t) mod (n - 1) = a) = ((C + int t) mod m = sint a - 1)"
      if "t \<in> set [0..<k]" for t
    proof -
      have "t < k"
        using that by simp
      then have "uint (1 + (count db + 1 + of_nat t) mod (n - 1)) = 1 + (C + int t) mod m"
        using selection_residue [OF n, of "count db" k t] h by (simp add: C_def m_def)
      then show ?thesis
        unfolding word_uint_eq_iff ua by linarith
    qed
    then show ?thesis
      unfolding selections_eq_map [OF n] by (rule count_list_map_cong)
  qed
  have "count_list (map (\<lambda>t. (C + int t) mod m) [0..<k]) (sint i - 1) \<le>
        count_list (map (\<lambda>t. (C + int t) mod m) [0..<k]) (sint j - 1) + 1"
    using h m by (intro residue_count_balanced) (simp_all add: m_def)
  then show "count_list (selections db n k) i \<le> count_list (selections db n k) j + 1"
    using h by (simp add: hits)
qed

theorem selections_round_robin_witness:
  "2 \<le> sint (4 :: 64 word) \<and>
   unat (count \<lparr>Pdbs = [Some 10, Some 11, Some 12, Some (13 :: nat)], count = 0\<rparr>) + 7 < 2 ^ 64 \<and>
   1 \<le> sint (2 :: 64 word) \<and> sint (2 :: 64 word) \<le> sint (4 :: 64 word) - 1 \<and>
   1 \<le> sint (1 :: 64 word) \<and> sint (1 :: 64 word) \<le> sint (4 :: 64 word) - 1 \<and>
   3 \<in> set (selections \<lparr>Pdbs = [Some 10, Some 11, Some 12, Some (13 :: nat)], count = 0\<rparr> 4 7) \<and>
   1 \<le> sint (3 :: 64 word) \<and> sint (3 :: 64 word) \<le> sint (4 :: 64 word) - 1 \<and>
   count_list (selections \<lparr>Pdbs = [Some 10, Some 11, Some 12, Some (13 :: nat)], count = 0\<rparr> 4 7) 2
     \<le> count_list (selections \<lparr>Pdbs = [Some 10, Some 11, Some 12, Some (13 :: nat)], count = 0\<rparr> 4 7) 1 + 1"
proof -
  have n: "2 \<le> sint (4 :: 64 word)"
    by simp
  have s: "selections \<lparr>Pdbs = [Some 10, Some 11, Some 12, Some (13 :: nat)], count = 0\<rparr> 4 7 =
           [2, 3, 1, 2, 3, 1, 2]"
    by code_simp
  show ?thesis
    using selections_round_robin [OF n,
        of "\<lparr>Pdbs = [Some 10, Some 11, Some 12, Some (13 :: nat)], count = 0\<rparr>" 7 2 1]
    by (simp add: s)
qed

text \<open>
  With four slots and the counter two steps before \<open>2^64\<close>, two selections in a row both
  return index 1: \<open>2^64 - 1\<close> and \<open>0\<close> are both multiples of 3. Index 1 is visited
  twice and index 2 not at all.
\<close>

theorem selections_round_robin_counterexample:
  "2 \<le> sint (4 :: 64 word) \<and>
   selections \<lparr>Pdbs = [Some 10, Some 11, Some 12, Some (13 :: nat)],
               count = 18446744073709551614\<rparr> 4 2 = [1, 1] \<and>
   \<not> count_list (selections \<lparr>Pdbs = [Some 10, Some 11, Some 12, Some (13 :: nat)],
                               count = 18446744073709551614\<rparr> 4 2) 1
       \<le> count_list (selections \<lparr>Pdbs = [Some 10, Some 11, Some 12, Some (13 :: nat)],
                                  count = 18446744073709551614\<rparr> 4 2) 2 + 1"
proof -
  have s: "selections \<lparr>Pdbs = [Some 10, Some 11, Some 12, Some (13 :: nat)],
               count = 18446744073709551614\<rparr> 4 2 = [1, 1]"
    by code_simp
  show ?thesis
    by (simp add: s)
qed

section \<open>Properties of routing\<close>

subsection \<open>Indexing the slot list\<close>

lemma index_0: "index xs 0 = (case xs of [] \<Rightarrow> Inl IndexOutOfRange | x # _ \<Rightarrow> Inr x)"
  by (simp add: index_def split: list.split)

lemma slice_len_small:
  assumes "length xs < 2 ^ 63"
  shows "sint (slice_len xs) = int (length xs)"
proof -
  have "length xs < 2 ^ LENGTH(64)"
    using assms by simp
  then have "unat (slice_len xs) = length xs"
    unfolding slice_len_def by (intro of_nat_inverse) simp_all
  then have u: "uint (slice_len xs) = int (length xs)"
    by (simp only: uint_nat)
  then have "uint (slice_len xs) < 2 ^ 63"
    using assms by simp
  then show ?thesis
    using u by (simp add: sint_of_small_uint)
qed

text \<open>
  The slot that \<open>Replica\<close> reads: slot 0 of a single slot, one of the slots \<open>1..n-1\<close>
  otherwise, and never out of range.
\<close>

lemma Replica_slot:
  assumes ne: "Pdbs db \<noteq> []" and small: "length (Pdbs db) < 2 ^ 63"
  shows "\<exists>j. j < length (Pdbs db) \<and>
           sint (fst (replica db (slice_len (Pdbs db)))) = int j \<and>
           Replica db = Inr (Pdbs db ! j, snd (replica db (slice_len (Pdbs db)))) \<and>
           (length (Pdbs db) = 1 \<longrightarrow> j = 0) \<and>
           (2 \<le> length (Pdbs db) \<longrightarrow> 1 \<le> j)"
proof -
  let ?n = "slice_len (Pdbs db)"
  have sn: "sint ?n = int (length (Pdbs db))"
    using small by (rule slice_len_small)
  show ?thesis
  proof (cases "length (Pdbs db) = 1")
    case True
    then have "sint ?n \<le> 1"
      using sn by simp
    then have r: "replica db ?n = (0, db)"
      by (rule replica_le1)
    have "Replica db = Inr (Pdbs db ! 0, snd (replica db ?n))"
      using True ne by (simp add: Replica_def r index_def)
    then show ?thesis
      using True r by (intro exI [of _ 0]) simp
  next
    case False
    then have two: "2 \<le> length (Pdbs db)"
      using ne by (cases "Pdbs db") (auto simp: Suc_le_eq)
    then have n2: "2 \<le> sint ?n"
      using sn by simp
    define i where "i = 1 + (count db + 1) mod (?n - 1)"
    have r: "replica db ?n = (i, db\<lparr>count := count db + 1\<rparr>)"
      unfolding i_def using n2 by (rule replica_ge2)
    have i: "1 \<le> sint i" "sint i \<le> sint ?n - 1"
      unfolding i_def using n2 by (rule replica_index_bounds)+
    have "nat (sint i) < length (Pdbs db)"
      using i sn by linarith
    moreover have "sint (fst (replica db ?n)) = int (nat (sint i))"
      using i by (simp add: r)
    moreover have "Replica db = Inr (Pdbs db ! nat (sint i), snd (replica db ?n))"
      using i sn by (simp add: Replica_def r index_def)
    moreover have "1 \<le> nat (sint i)"
      using i by linarith
    ultimately show ?thesis
      using two by (intro exI [of _ "nat (sint i)"]) simp
  qed
qed

lemma invoke_Some:
  "invoke env (Some r) c tr =
     Inr (sqldb env tr r c, tr @ [CallEv r c (fst (sqldb env tr r c)) (snd (sqldb env tr r c))])"
  by (simp add: invoke_def split: prod.split)

text \<open>
  C2. When slot 0 holds the handle \<open>r\<close>, each of \<^verbatim>\<open>Exec\<close>, \<^verbatim>\<open>ExecContext\<close>, \<^verbatim>\<open>Begin\<close> and
  \<^verbatim>\<open>BeginTx\<close> returns what the same method of \<open>r\<close> returns, and the outside world sees
  exactly one more call, that call on \<open>r\<close>: no other slot is touched.
\<close>

theorem primary_delegation:
  assumes "Pdbs db \<noteq> []" and "Pdbs db ! 0 = Some r"
  shows "Exec env db q as tr =
           Inr (sqldb env tr r (SQLDB_Exec q as),
                tr @ [CallEv r (SQLDB_Exec q as) (fst (sqldb env tr r (SQLDB_Exec q as)))
                        (snd (sqldb env tr r (SQLDB_Exec q as)))]) \<and>
         ExecContext env db ctx q as tr =
           Inr (sqldb env tr r (SQLDB_ExecContext ctx q as),
                tr @ [CallEv r (SQLDB_ExecContext ctx q as)
                        (fst (sqldb env tr r (SQLDB_ExecContext ctx q as)))
                        (snd (sqldb env tr r (SQLDB_ExecContext ctx q as)))]) \<and>
         Begin env db tr =
           Inr (sqldb env tr r SQLDB_Begin,
                tr @ [CallEv r SQLDB_Begin (fst (sqldb env tr r SQLDB_Begin))
                        (snd (sqldb env tr r SQLDB_Begin))]) \<and>
         BeginTx env db ctx opts tr =
           Inr (sqldb env tr r (SQLDB_BeginTx ctx opts),
                tr @ [CallEv r (SQLDB_BeginTx ctx opts)
                        (fst (sqldb env tr r (SQLDB_BeginTx ctx opts)))
                        (snd (sqldb env tr r (SQLDB_BeginTx ctx opts)))])"
proof -
  obtain rest where "Pdbs db = Some r # rest"
    using assms by (cases "Pdbs db") auto
  then have "index (Pdbs db) 0 = Inr (Some r)"
    by (simp add: index_0)
  then show ?thesis
    by (simp add: Exec_def ExecContext_def Begin_def BeginTx_def invoke_Some)
qed

theorem primary_delegation_witness:
  "Pdbs \<lparr>Pdbs = [Some ''p'', Some ''r1'', Some ''r2''], count = 0\<rparr> \<noteq> [] \<and>
   Pdbs \<lparr>Pdbs = [Some ''p'', Some ''r1'', Some ''r2''], count = 0\<rparr> ! 0 = Some ''p'' \<and>
   Exec double \<lparr>Pdbs = [Some ''p'', Some ''r1'', Some ''r2''], count = 0\<rparr> ''UPDATE t'' [] [] =
     Inr ((Some 0, None), [CallEv ''p'' (SQLDB_Exec ''UPDATE t'' []) (Some 0) None]) \<and>
   Begin double \<lparr>Pdbs = [Some ''p'', Some ''r1'', Some ''r2''], count = 0\<rparr> [] =
     Inr ((Some 0, None), [CallEv ''p'' SQLDB_Begin (Some 0) None])"
  using primary_delegation [of "\<lparr>Pdbs = [Some ''p'', Some ''r1'', Some ''r2''], count = 0\<rparr>"
      "''p''" double "''UPDATE t''" "[]" "[]"]
  by (simp add: double_def)

text \<open>
  C3. On a logical database with at least one slot and no nil slot, each of \<^verbatim>\<open>Query\<close>,
  \<^verbatim>\<open>QueryContext\<close>, \<^verbatim>\<open>QueryRow\<close> and \<^verbatim>\<open>QueryRowContext\<close> returns what the same method
  of the handle in slot \<open>j\<close> returns, where \<open>j\<close> is the index that \<open>replica\<close> chooses for
  the current slot count, and the outside world sees exactly one more call, on that
  handle. \<open>j\<close> is 0 for a single slot and lies in \<open>1..n-1\<close> for \<open>n \<ge> 2\<close> slots. The
  logical database afterwards is the one \<open>replica\<close> leaves.
\<close>

theorem replica_delegation:
  assumes "Pdbs db \<noteq> []" and "length (Pdbs db) < 2 ^ 63" and "None \<notin> set (Pdbs db)"
  shows "\<exists>j r. j < length (Pdbs db) \<and> Pdbs db ! j = Some r \<and>
           sint (fst (replica db (slice_len (Pdbs db)))) = int j \<and>
           (length (Pdbs db) = 1 \<longrightarrow> j = 0) \<and>
           (2 \<le> length (Pdbs db) \<longrightarrow> 1 \<le> j) \<and>
           Query env db q as tr =
             Inr (sqldb env tr r (SQLDB_Query q as),
                  snd (replica db (slice_len (Pdbs db))),
                  tr @ [CallEv r (SQLDB_Query q as) (fst (sqldb env tr r (SQLDB_Query q as)))
                          (snd (sqldb env tr r (SQLDB_Query q as)))]) \<and>
           QueryContext env db ctx q as tr =
             Inr (sqldb env tr r (SQLDB_QueryContext ctx q as),
                  snd (replica db (slice_len (Pdbs db))),
                  tr @ [CallEv r (SQLDB_QueryContext ctx q as)
                          (fst (sqldb env tr r (SQLDB_QueryContext ctx q as)))
                          (snd (sqldb env tr r (SQLDB_QueryContext ctx q as)))]) \<and>
           QueryRow env db q as tr =
             Inr (sqldb env tr r (SQLDB_QueryRow q as),
                  snd (replica db (slice_len (Pdbs db))),
                  tr @ [CallEv r (SQLDB_QueryRow q as)
                          (fst (sqldb env tr r (SQLDB_QueryRow q as)))
                          (snd (sqldb env tr r (SQLDB_QueryRow q as)))]) \<and>
           QueryRowContext env db ctx q as tr =
             Inr (sqldb env tr r (SQLDB_QueryRowContext ctx q as),
                  snd (replica db (slice_len (Pdbs db))),
                  tr @ [CallEv r (SQLDB_QueryRowContext ctx q as)
                          (fst (sqldb env tr r (SQLDB_QueryRowContext ctx q as)))
                          (snd (sqldb env tr r (SQLDB_QueryRowContext ctx q as)))])"
proof -
  obtain j where j: "j < length (Pdbs db)"
    and i: "sint (fst (replica db (slice_len (Pdbs db)))) = int j"
    and R: "Replica db = Inr (Pdbs db ! j, snd (replica db (slice_len (Pdbs db))))"
    and one: "length (Pdbs db) = 1 \<Longrightarrow> j = 0"
    and two: "2 \<le> length (Pdbs db) \<Longrightarrow> 1 \<le> j"
    using Replica_slot [OF assms(1) assms(2)] by blast
  have "Pdbs db ! j \<in> set (Pdbs db)"
    using j by simp
  then have "Pdbs db ! j \<noteq> None"
    using assms(3) by metis
  then obtain r where r: "Pdbs db ! j = Some r"
    by blast
  show ?thesis
  proof (intro exI [of _ j] exI [of _ r] conjI impI)
    show "j < length (Pdbs db)" by (rule j)
    show "Pdbs db ! j = Some r" by (rule r)
    show "sint (fst (replica db (slice_len (Pdbs db)))) = int j" by (rule i)
    show "j = 0" if "length (Pdbs db) = 1" using that by (rule one)
    show "1 \<le> j" if "2 \<le> length (Pdbs db)" using that by (rule two)
  qed (simp_all add: Query_def QueryContext_def QueryRow_def QueryRowContext_def R r invoke_Some)
qed

theorem replica_delegation_witness:
  "Pdbs \<lparr>Pdbs = [Some ''p'', Some ''r1'', Some ''r2''], count = 0\<rparr> \<noteq> [] \<and>
   length (Pdbs \<lparr>Pdbs = [Some ''p'', Some ''r1'', Some ''r2''], count = 0\<rparr>) < 2 ^ 63 \<and>
   None \<notin> set (Pdbs \<lparr>Pdbs = [Some ''p'', Some ''r1'', Some ''r2''], count = 0\<rparr>) \<and>
   Query double \<lparr>Pdbs = [Some ''p'', Some ''r1'', Some ''r2''], count = 0\<rparr> ''SELECT 1'' [] [] =
     Inr ((Some 0, None), \<lparr>Pdbs = [Some ''p'', Some ''r1'', Some ''r2''], count = 1\<rparr>,
          [CallEv ''r2'' (SQLDB_Query ''SELECT 1'' []) (Some 0) None])"
proof -
  have r: "replica \<lparr>Pdbs = [Some ''p'', Some ''r1'', Some ''r2''], count = 0\<rparr>
             (slice_len [Some ''p'', Some ''r1'', Some ''r2'']) =
           (2, \<lparr>Pdbs = [Some ''p'', Some ''r1'', Some ''r2''], count = 1\<rparr>)"
    by (simp add: replica_def slice_len_def word_sle_eq)
  show ?thesis
    using replica_delegation [of "\<lparr>Pdbs = [Some ''p'', Some ''r1'', Some ''r2''], count = 0\<rparr>"
        double "''SELECT 1''" "[]" "[]" "Context 0"]
    by (auto simp add: r double_def)
qed

text \<open>
  C8, as the code has it. \<^verbatim>\<open>Replica\<close>, and \<^verbatim>\<open>Slave\<close> which is the same function, returns
  the slot that \<open>replica\<close> chooses, calls no physical handle and leaves the slot list as
  it is. The selection counter is left alone only when there is at most one slot; with
  two or more slots it is advanced by one.
\<close>

theorem Replica_frame:
  assumes "Replica db = Inr (h, db')" and "length (Pdbs db) < 2 ^ 63"
  shows "Slave db = Inr (h, db') \<and>
         index (Pdbs db) (fst (replica db (slice_len (Pdbs db)))) = Inr h \<and>
         Pdbs db' = Pdbs db \<and>
         count db' = (if length (Pdbs db) \<le> 1 then count db else count db + 1) \<and>
         step env order Op_Replica (db, tr) = Inr (Handle h, db', tr) \<and>
         step env order Op_Slave (db, tr) = Inr (Handle h, db', tr)"
proof -
  let ?n = "slice_len (Pdbs db)"
  have sn: "sint ?n = int (length (Pdbs db))"
    using assms(2) by (rule slice_len_small)
  have db': "db' = snd (replica db ?n)" and h: "index (Pdbs db) (fst (replica db ?n)) = Inr h"
    using assms(1) replica_Pdbs [of db ?n]
    by (auto simp: Replica_def split: prod.splits sum.splits)
  have c: "count db' = (if length (Pdbs db) \<le> 1 then count db else count db + 1)"
  proof (cases "length (Pdbs db) \<le> 1")
    case True
    then have "sint ?n \<le> 1"
      using sn by simp
    then show ?thesis
      using True by (simp add: db' replica_le1)
  next
    case False
    then have "2 \<le> sint ?n"
      using sn by simp
    then show ?thesis
      using False by (simp add: db' replica_ge2)
  qed
  show ?thesis
    using assms(1) h c by (simp add: Slave_def db' replica_Pdbs)
qed

theorem Replica_frame_witness:
  "Replica \<lparr>Pdbs = [Some ''p'', Some ''r1''], count = 7\<rparr> =
     Inr (Some ''r1'', \<lparr>Pdbs = [Some ''p'', Some ''r1''], count = 8\<rparr>) \<and>
   length (Pdbs \<lparr>Pdbs = [Some ''p'', Some ''r1''], count = 7\<rparr>) < 2 ^ 63 \<and>
   Slave \<lparr>Pdbs = [Some ''p'', Some ''r1''], count = 7\<rparr> =
     Inr (Some ''r1'', \<lparr>Pdbs = [Some ''p'', Some ''r1''], count = 8\<rparr>) \<and>
   step double [] Op_Replica (\<lparr>Pdbs = [Some ''p'', Some ''r1''], count = 7\<rparr>, []) =
     Inr (Handle (Some ''r1''), \<lparr>Pdbs = [Some ''p'', Some ''r1''], count = 8\<rparr>, [])"
proof -
  have R: "Replica \<lparr>Pdbs = [Some ''p'', Some ''r1''], count = 7\<rparr> =
     Inr (Some ''r1'', \<lparr>Pdbs = [Some ''p'', Some ''r1''], count = 8\<rparr>)"
    by (simp add: Replica_def replica_def slice_len_def index_def word_sle_eq)
  have l: "length (Pdbs \<lparr>Pdbs = [Some ''p'', Some ''r1''], count = 7\<rparr>) < 2 ^ 63"
    by simp
  show ?thesis
    using Replica_frame [OF R l, of double "[]" "[]"] R by simp
qed

text \<open>
  With a primary and one replica, \<^verbatim>\<open>Replica\<close> returns the replica and the counter has
  gone from 0 to 1: the accessor has a side effect on the logical database.
\<close>

theorem Replica_frame_counterexample:
  "Replica \<lparr>Pdbs = [Some ''p'', Some ''r1''], count = 0\<rparr> =
     Inr (Some ''r1'', \<lparr>Pdbs = [Some ''p'', Some ''r1''], count = 1\<rparr>) \<and>
   Slave \<lparr>Pdbs = [Some ''p'', Some ''r1''], count = 0\<rparr> =
     Inr (Some ''r1'', \<lparr>Pdbs = [Some ''p'', Some ''r1''], count = 1\<rparr>) \<and>
   \<lparr>Pdbs = [Some ''p'', Some ''r1''], count = 1\<rparr> \<noteq> \<lparr>Pdbs = [Some ''p'', Some ''r1''], count = 0\<rparr>"
  by (simp add: Slave_def Replica_def replica_def slice_len_def index_def word_sle_eq)

section \<open>Properties of the scatter executor\<close>

subsection \<open>Failures of a result list\<close>

lemma failures_replicate_None: "failures (replicate n None) = []"
  by (induction n) simp_all

lemma failures_Nil_iff: "(failures xs = []) = (\<forall>x \<in> set xs. x = None)"
  by (induction xs rule: failures.induct) simp_all

lemma failures_nth_None:
  "(\<forall>x \<in> set xs. x = None) = (\<forall>i < length xs. xs ! i = None)"
  by (metis in_set_conv_nth)

lemma failures_update_count:
  assumes "i < length errs" and "errs ! i = None"
  shows "count_list (failures (errs[i := x])) e =
           count_list (failures errs) e + count_list (failures [x]) e"
  using assms
proof (induction errs arbitrary: i)
  case Nil
  then show ?case by simp
next
  case (Cons y ys)
  show ?case
  proof (cases i)
    case 0
    then show ?thesis
      using Cons.prems by (cases x) simp_all
  next
    case (Suc j)
    then show ?thesis
      using Cons by (cases y) simp_all
  qed
qed

lemma failures_update_length:
  assumes "i < length errs" and "errs ! i = None"
  shows "length (failures (errs[i := x])) = length (failures errs) + length (failures [x])"
  using assms
proof (induction errs arbitrary: i)
  case Nil
  then show ?case by simp
next
  case (Cons y ys)
  show ?case
  proof (cases i)
    case 0
    then show ?thesis
      using Cons.prems by (cases x) simp_all
  next
    case (Suc j)
    then show ?thesis
      using Cons by (cases y) simp_all
  qed
qed

lemma failures_Cons:
  "count_list (failures (x # xs)) e = count_list (failures [x]) e + count_list (failures xs) e"
  "length (failures (x # xs)) = length (failures [x]) + length (failures xs)"
  by (cases x; simp)+

subsection \<open>The run\<close>

text \<open>
  The slots of the result list are written once each, so the failures collected in it
  are the failures the invocations returned, each as often as it was returned.
\<close>

lemma scatter_run_failures:
  assumes "distinct order"
    and "\<forall>i \<in> set order. i < length errs \<and> errs ! i = None"
    and "scatter_run fn order errs s = Inr (errs', s')"
  shows "count_list (failures errs') e =
           count_list (failures errs) e + count_list (failures (outcomes fn order s)) e \<and>
         length (failures errs') =
           length (failures errs) + length (failures (outcomes fn order s)) \<and>
         length (outcomes fn order s) = length order"
  using assms
proof (induction order arbitrary: errs s)
  case Nil
  then show ?case by simp
next
  case (Cons i js)
  from Cons.prems(3) obtain x s1 where f: "fn i s = Inr (x, s1)"
    and run: "scatter_run fn js (errs[i := x]) s1 = Inr (errs', s')"
    by (auto split: sum.splits)
  have i: "i < length errs" "errs ! i = None" "i \<notin> set js"
    using Cons.prems(1,2) by simp_all
  have "\<forall>j \<in> set js. j < length (errs[i := x]) \<and> errs[i := x] ! j = None"
    using Cons.prems(2) i(3) by (auto simp: nth_list_update)
  with Cons.prems(1) run
  have IH: "count_list (failures errs') e =
           count_list (failures (errs[i := x])) e + count_list (failures (outcomes fn js s1)) e \<and>
         length (failures errs') =
           length (failures (errs[i := x])) + length (failures (outcomes fn js s1)) \<and>
         length (outcomes fn js s1) = length js"
    by (intro Cons.IH) simp_all
  have o: "outcomes fn (i # js) s = x # outcomes fn js s1"
    by (simp add: f)
  show ?case
    unfolding o using IH failures_update_count [OF i(1,2), of x e]
      failures_update_length [OF i(1,2), of x] failures_Cons [of x "outcomes fn js s1"]
    by simp
qed

lemma singleton_by_count:
  assumes "length xs = 1" and "count_list xs e = 1"
  shows "xs = [e]"
proof -
  obtain y where y: "xs = [y]"
    using assms(1) by (cases xs) auto
  have "y = e"
    using assms(2) unfolding y by (simp split: if_splits)
  then show ?thesis
    by (simp add: y)
qed

lemma combine_two:
  assumes "2 \<le> length es"
  shows "combine es = Some (Multi es)"
proof -
  obtain a b rest where "es = a # b # rest"
    using assms by (cases es; cases "tl es") auto
  then show ?thesis by simp
qed

text \<open>
  C7. A scatter over \<open>n\<close> indexed operations whose invocations run in any order, none
  of them panicking, has run every invocation once. It reports success when no
  invocation failed, returns the failure as it is when exactly one failed, and returns
  one compound failure whose list of causes holds every failure, each as often as it was
  returned, when two or more failed. For \<open>n = 0\<close> nothing runs and it is a success.
\<close>

theorem scatter_aggregates:
  assumes "distinct order" and "set order = {..<n}"
    and "scatter n fn order s = Inr (r, s')"
  shows "length (outcomes fn order s) = n \<and>
         (failures (outcomes fn order s) = [] \<longrightarrow> r = None) \<and>
         (\<forall>e. failures (outcomes fn order s) = [e] \<longrightarrow> r = Some e) \<and>
         (2 \<le> length (failures (outcomes fn order s)) \<longrightarrow>
            (\<exists>es. r = Some (Multi es) \<and> is_multi (Multi es) \<and> causes (Multi es) = es \<and>
                  length es = length (failures (outcomes fn order s)) \<and>
                  (\<forall>e. count_list es e = count_list (failures (outcomes fn order s)) e))) \<and>
         (n = 0 \<longrightarrow> r = None \<and> s' = s)"
proof -
  from assms(3) obtain errs where run: "scatter_run fn order (replicate n None) s = Inr (errs, s')"
    and r: "r = combine (failures errs)"
    by (auto simp: scatter_def split: sum.splits)
  have slots: "\<forall>i \<in> set order. i < length (replicate n None) \<and> replicate n None ! i = None"
    using assms(2) by simp
  have F: "count_list (failures errs) e = count_list (failures (outcomes fn order s)) e"
    and L: "length (failures errs) = length (failures (outcomes fn order s))"
    and O: "length (outcomes fn order s) = length order" for e
    using scatter_run_failures [OF assms(1) slots run] by (simp_all add: failures_replicate_None)
  have n: "length order = n"
    using assms(1,2) distinct_card [of order] by simp
  have none: "r = None" if "failures (outcomes fn order s) = []"
    using L that by (simp add: r)
  have one: "r = Some e" if "failures (outcomes fn order s) = [e]" for e
  proof -
    have "failures errs = [e]"
      using L F [of e] that by (intro singleton_by_count) simp_all
    then show ?thesis by (simp add: r)
  qed
  have many: "\<exists>es. r = Some (Multi es) \<and> is_multi (Multi es) \<and> causes (Multi es) = es \<and>
                  length es = length (failures (outcomes fn order s)) \<and>
                  (\<forall>e. count_list es e = count_list (failures (outcomes fn order s)) e)"
    if "2 \<le> length (failures (outcomes fn order s))"
  proof -
    have "r = Some (Multi (failures errs))"
      using that L by (simp add: r combine_two)
    then show ?thesis
      using L F by auto
  qed
  have zero: "r = None \<and> s' = s" if "n = 0"
  proof -
    have "order = []"
      using that assms(2) by simp
    then show ?thesis
      using run that by (simp add: r)
  qed
  show ?thesis
    using none one many zero O n by blast
qed

theorem scatter_aggregates_witness:
  "distinct [2, 0, 3, 1 :: nat] \<and> set [2, 0, 3, 1 :: nat] = {..<4} \<and>
   scatter 4
     (\<lambda>i s. Inr (if i = 1 then Some (Cause ''one'')
                 else if i = 3 then Some (Cause ''three'') else None, s @ [i]))
     [2, 0, 3, 1] [] =
   Inr (Some (Multi [Cause ''one'', Cause ''three'']), [2, 0, 3, 1]) \<and>
   failures (outcomes
     (\<lambda>i s. Inr (if i = 1 then Some (Cause ''one'')
                 else if i = 3 then Some (Cause ''three'') else None, s @ [i]) :: panic + _)
     [2, 0, 3, 1] ([] :: nat list)) = [Cause ''three'', Cause ''one''] \<and>
   count_list [Cause ''one'', Cause ''three''] (Cause ''one'') =
   count_list [Cause ''three'', Cause ''one''] (Cause ''one'')"
proof -
  let ?fn = "\<lambda>i s. Inr (if i = 1 then Some (Cause ''one'')
                 else if i = 3 then Some (Cause ''three'') else None, s @ [i :: nat])
              :: panic + (string error option \<times> nat list)"
  have d: "distinct [2, 0, 3, 1 :: nat]"
    by simp
  have o: "set [2, 0, 3, 1 :: nat] = {..<4}"
    by (auto simp: numeral_eq_Suc lessThan_Suc)
  have r: "scatter 4 ?fn [2, 0, 3, 1] [] =
             Inr (Some (Multi [Cause ''one'', Cause ''three'']), [2, 0, 3, 1])"
    by (simp add: scatter_def numeral_eq_Suc)
  show ?thesis
    using scatter_aggregates [OF d o r] d o r by simp
qed

text \<open>
  The closures of \<^verbatim>\<open>Open\<close> and \<^verbatim>\<open>Prepare\<close> have one shape: invocation \<open>i\<close> makes one
  call to the outside world, stores what it returned in slot \<open>i\<close> of a list and returns
  the error. \<open>act i tr\<close> is what the call returns when the world is \<open>tr\<close>, and
  \<open>ev i v e\<close> is the event that records it. After the run every slot holds what its
  call returned, and the world has seen the calls in the order of the run.
\<close>

lemma scatter_run_stores:
  assumes fn: "\<And>i xs tr. i \<in> set order \<Longrightarrow> i < length xs \<Longrightarrow>
                 fn i (xs, tr) =
                   Inr (snd (act i tr), xs[i := fst (act i tr)],
                        tr @ [ev i (fst (act i tr)) (snd (act i tr))])"
    and "distinct order"
    and "\<forall>i \<in> set order. i < n"
    and "length xs = n" and "length errs = n"
  shows "\<exists>errs' xs'.
           scatter_run fn order errs (xs, tr) =
             Inr (errs', xs', tr @ map (\<lambda>i. ev i (xs' ! i) (errs' ! i)) order) \<and>
           length errs' = n \<and> length xs' = n \<and>
           (\<forall>i < n. i \<notin> set order \<longrightarrow> errs' ! i = errs ! i \<and> xs' ! i = xs ! i) \<and>
           (\<forall>k < length order.
              (xs' ! (order ! k), errs' ! (order ! k)) =
                act (order ! k) (tr @ map (\<lambda>i. ev i (xs' ! i) (errs' ! i)) (take k order)))"
  using assms
proof (induction order arbitrary: errs xs tr)
  case Nil
  then show ?case by simp
next
  case (Cons i js)
  obtain v e where a: "act i tr = (v, e)"
    by (cases "act i tr")
  have i: "i < n" "i \<notin> set js"
    using Cons.prems(2,3) by simp_all
  have f: "fn i (xs, tr) = Inr (e, xs[i := v], tr @ [ev i v e])"
    using Cons.prems(1) [of i xs tr] i(1) Cons.prems(4) by (simp add: a)
  have "\<exists>errs' xs'.
           scatter_run fn js (errs[i := e]) (xs[i := v], tr @ [ev i v e]) =
             Inr (errs', xs', (tr @ [ev i v e]) @ map (\<lambda>i. ev i (xs' ! i) (errs' ! i)) js) \<and>
           length errs' = n \<and> length xs' = n \<and>
           (\<forall>j < n. j \<notin> set js \<longrightarrow> errs' ! j = errs[i := e] ! j \<and> xs' ! j = xs[i := v] ! j) \<and>
           (\<forall>k < length js.
              (xs' ! (js ! k), errs' ! (js ! k)) =
                act (js ! k) ((tr @ [ev i v e]) @ map (\<lambda>i. ev i (xs' ! i) (errs' ! i)) (take k js)))"
    using Cons.prems by (intro Cons.IH) simp_all
  then obtain errs' xs' where
    run: "scatter_run fn js (errs[i := e]) (xs[i := v], tr @ [ev i v e]) =
             Inr (errs', xs', (tr @ [ev i v e]) @ map (\<lambda>i. ev i (xs' ! i) (errs' ! i)) js)"
    and len: "length errs' = n" "length xs' = n"
    and frame: "\<forall>j < n. j \<notin> set js \<longrightarrow> errs' ! j = errs[i := e] ! j \<and> xs' ! j = xs[i := v] ! j"
    and acts: "\<forall>k < length js.
              (xs' ! (js ! k), errs' ! (js ! k)) =
                act (js ! k) ((tr @ [ev i v e]) @ map (\<lambda>i. ev i (xs' ! i) (errs' ! i)) (take k js))"
    by blast
  have at_i: "errs' ! i = e" "xs' ! i = v"
    using frame i Cons.prems(4,5) by simp_all
  have "scatter_run fn (i # js) errs (xs, tr) =
             Inr (errs', xs', tr @ map (\<lambda>i. ev i (xs' ! i) (errs' ! i)) (i # js))"
    using run by (simp add: f at_i)
  moreover have "\<forall>j < n. j \<notin> set (i # js) \<longrightarrow> errs' ! j = errs ! j \<and> xs' ! j = xs ! j"
    using frame by simp
  moreover have "(xs' ! ((i # js) ! k), errs' ! ((i # js) ! k)) =
                act ((i # js) ! k) (tr @ map (\<lambda>i. ev i (xs' ! i) (errs' ! i)) (take k (i # js)))"
    if "k < length (i # js)" for k
  proof (cases k)
    case 0
    then show ?thesis by (simp add: at_i a)
  next
    case (Suc k')
    then show ?thesis
      using acts that by (simp add: at_i)
  qed
  ultimately show ?case
    using len by blast
qed

section \<open>Properties of Open\<close>

subsection \<open>Splitting the data source names\<close>

lemma length_split_from: "length (split_from cur sep s) = Suc (count_list s sep)"
  by (induction s arbitrary: cur) simp_all

lemma length_Split: "length (Split s sep) = Suc (count_list s sep)"
  by (simp add: Split_def length_split_from)

lemma concat_split_from:
  "concat (map (\<lambda>seg. sep # seg) (split_from cur sep s)) = sep # cur @ s"
  by (induction s arbitrary: cur) simp_all

lemma split_from_no_sep:
  "sep \<notin> set cur \<Longrightarrow> \<forall>seg \<in> set (split_from cur sep s). sep \<notin> set seg"
proof (induction s arbitrary: cur)
  case Nil
  then show ?case by simp
next
  case (Cons c cs)
  show ?case
  proof (cases "c = sep")
    case True
    then show ?thesis
      using Cons.prems Cons.IH [of "[]"] by simp
  next
    case False
    then show ?thesis
      using Cons.prems Cons.IH [of "cur @ [c]"] by simp
  qed
qed

text \<open>
  The pieces are the maximal stretches without the separator, in order: putting the
  separator in front of each piece and concatenating gives the separator and the string.
\<close>

lemma Split_pieces:
  "concat (map (\<lambda>seg. sep # seg) (Split s sep)) = sep # s"
  "\<forall>seg \<in> set (Split s sep). sep \<notin> set seg"
  using split_from_no_sep [of sep "[]" s] by (simp_all add: Split_def concat_split_from)

subsection \<open>Opening every data source\<close>

lemma combine_None_iff: "(combine es = None) = (es = [])"
  by (cases es rule: combine.cases) simp_all

lemma Open_result:
  assumes conns: "conns = Split dataSourceNames (CHR '';'')"
    and "distinct order" and order: "set order = {..<length conns}"
  shows "\<exists>pdbs errs.
           length pdbs = length conns \<and> length errs = length conns \<and>
           (\<forall>k < length order.
              (pdbs ! (order ! k), errs ! (order ! k)) =
                sql_Open env
                  (tr @ map (\<lambda>i. OpenEv driverName (conns ! i) (pdbs ! i) (errs ! i)) (take k order))
                  driverName (conns ! (order ! k))) \<and>
           Open env order driverName dataSourceNames tr =
             Inr (if \<forall>i < length conns. errs ! i = None
                  then (Some \<lparr>Pdbs = pdbs, count = 0\<rparr>, None)
                  else (None, combine (failures errs)),
                  tr @ map (\<lambda>i. OpenEv driverName (conns ! i) (pdbs ! i) (errs ! i)) order) \<and>
           ((\<exists>i < length conns. errs ! i \<noteq> None) \<longrightarrow> combine (failures errs) \<noteq> None)"
proof -
  let ?n = "length conns"
  let ?act = "\<lambda>i tr. sql_Open env tr driverName (conns ! i)"
  let ?ev = "\<lambda>i. OpenEv driverName (conns ! i)"
  have fn: "Open_fn env driverName conns i (xs, t) =
              Inr (snd (?act i t), xs[i := fst (?act i t)],
                   t @ [?ev i (fst (?act i t)) (snd (?act i t))])"
    if "i \<in> set order" "i < length xs" for i xs t
    using that order by (simp add: Open_fn_def slot_def split: prod.split)
  have "\<forall>i \<in> set order. i < ?n"
    using order by simp
  with fn assms(2) obtain errs pdbs where
    run: "scatter_run (Open_fn env driverName conns) order (replicate ?n None)
            (replicate ?n None, tr) =
          Inr (errs, pdbs, tr @ map (\<lambda>i. ?ev i (pdbs ! i) (errs ! i)) order)"
    and len: "length errs = ?n" "length pdbs = ?n"
    and acts: "\<forall>k < length order.
              (pdbs ! (order ! k), errs ! (order ! k)) =
                ?act (order ! k) (tr @ map (\<lambda>i. ?ev i (pdbs ! i) (errs ! i)) (take k order))"
    using scatter_run_stores [of order "Open_fn env driverName conns" ?act ?ev ?n
        "replicate ?n None" "replicate ?n None" tr]
    by auto
  have all: "(\<forall>i < ?n. errs ! i = None) = (failures errs = [])"
    using len by (simp add: failures_Nil_iff failures_nth_None)
  have res: "Open env order driverName dataSourceNames tr =
             Inr (if \<forall>i < ?n. errs ! i = None
                  then (Some \<lparr>Pdbs = pdbs, count = 0\<rparr>, None)
                  else (None, combine (failures errs)),
                  tr @ map (\<lambda>i. ?ev i (pdbs ! i) (errs ! i)) order)"
  proof (cases "failures errs = []")
    case True
    then show ?thesis
      using run by (simp add: Open_def scatter_def all flip: conns)
  next
    case False
    then obtain e where "combine (failures errs) = Some e"
      using combine_None_iff [of "failures errs"] by auto
    then show ?thesis
      using run False by (simp add: Open_def scatter_def all flip: conns)
  qed
  have some: "combine (failures errs) \<noteq> None" if "\<exists>i < ?n. errs ! i \<noteq> None"
  proof -
    have "\<not> (\<forall>i < ?n. errs ! i = None)"
      using that by simp
    then have "failures errs \<noteq> []"
      using all by simp
    then show ?thesis
      by (simp add: combine_None_iff)
  qed
  show ?thesis
  proof (intro exI [of _ pdbs] exI [of _ errs] conjI impI)
    show "length pdbs = ?n" and "length errs = ?n"
      by (rule len)+
    show "\<forall>k < length order.
              (pdbs ! (order ! k), errs ! (order ! k)) =
                ?act (order ! k) (tr @ map (\<lambda>i. ?ev i (pdbs ! i) (errs ! i)) (take k order))"
      by (rule acts)
    show "combine (failures errs) \<noteq> None" if "\<exists>i < ?n. errs ! i \<noteq> None"
      using that by (rule some)
  qed (rule res)
qed

text \<open>
  C4. \<^verbatim>\<open>Open\<close> splits the data source names at the semicolons into the pieces
  \<open>conns\<close>, and whatever the order in which the concurrent opens take effect, it never
  panics and it calls \<^verbatim>\<open>sql.Open\<close> once for every piece, also when some of the opens
  fail. \<open>pdbs ! i\<close> and \<open>errs ! i\<close> are what the open of piece \<open>i\<close> returned. If
  every open succeeded the result is the logical database whose slot \<open>i\<close> is
  \<open>pdbs ! i\<close>, so that the first piece is the primary, with the counter at 0 and no
  error. If any open failed the result is no logical database and an error.
\<close>

theorem Open_all_or_nothing:
  assumes "conns = Split dataSourceNames (CHR '';'')"
    and "distinct order" and "set order = {..<length conns}"
  shows "concat (map (\<lambda>seg. CHR '';'' # seg) conns) = CHR '';'' # dataSourceNames \<and>
         (\<forall>seg \<in> set conns. CHR '';'' \<notin> set seg) \<and>
         (\<exists>pdbs errs.
            length pdbs = length conns \<and> length errs = length conns \<and>
            (\<forall>k < length order.
               (pdbs ! (order ! k), errs ! (order ! k)) =
                 sql_Open env
                   (tr @ map (\<lambda>i. OpenEv driverName (conns ! i) (pdbs ! i) (errs ! i)) (take k order))
                   driverName (conns ! (order ! k))) \<and>
            Open env order driverName dataSourceNames tr =
              Inr (if \<forall>i < length conns. errs ! i = None
                   then (Some \<lparr>Pdbs = pdbs, count = 0\<rparr>, None)
                   else (None, combine (failures errs)),
                   tr @ map (\<lambda>i. OpenEv driverName (conns ! i) (pdbs ! i) (errs ! i)) order) \<and>
            ((\<exists>i < length conns. errs ! i \<noteq> None) \<longrightarrow> combine (failures errs) \<noteq> None))"
  using Open_result [OF assms, of env tr driverName]
    Split_pieces [where sep = "CHR '';''" and s = dataSourceNames]
  by (simp add: assms(1))

theorem Open_all_or_nothing_witness:
  "[''p'', ''down'', ''r2''] = Split ''p;down;r2'' (CHR '';'') \<and>
   distinct [2, 0, 1 :: nat] \<and> set [2, 0, 1 :: nat] = {..<length [''p'', ''down'', ''r2'']} \<and>
   Open double [2, 0, 1] ''mysql'' ''p;down;r2'' [] =
     Inr ((None, Some (Cause ''refused'')),
          [OpenEv ''mysql'' ''r2'' (Some ''r2'') None,
           OpenEv ''mysql'' ''p'' (Some ''p'') None,
           OpenEv ''mysql'' ''down'' None (Some (Cause ''refused''))])"
proof -
  have s: "[''p'', ''down'', ''r2''] = Split ''p;down;r2'' (CHR '';'')"
    by (simp add: Split_def)
  have d: "distinct [2, 0, 1 :: nat]"
    by simp
  have o: "set [2, 0, 1 :: nat] = {..<length [''p'', ''down'', ''r2'']}"
    by (auto simp: numeral_eq_Suc lessThan_Suc)
  have r: "Open double [2, 0, 1] ''mysql'' ''p;down;r2'' [] =
     Inr ((None, Some (Cause ''refused'')),
          [OpenEv ''mysql'' ''r2'' (Some ''r2'') None,
           OpenEv ''mysql'' ''p'' (Some ''p'') None,
           OpenEv ''mysql'' ''down'' None (Some (Cause ''refused''))])"
    by (simp add: Open_def scatter_def Open_fn_def slot_def double_def numeral_eq_Suc flip: s)
  show ?thesis
    using Open_all_or_nothing [OF s d o, of double "[]" "''mysql''"] s d o r by simp
qed

text \<open>
  However the opens are scheduled, the closure only overwrites slots: the slot list keeps
  the length it was made with.
\<close>

lemma scatter_run_Open_length:
  assumes "scatter_run (Open_fn env driverName conns) order errs (pdbs, tr) = Inr (errs', pdbs', tr')"
  shows "length pdbs' = length pdbs"
  using assms
proof (induction order arbitrary: errs pdbs tr)
  case Nil
  then show ?case by simp
next
  case (Cons i js)
  from Cons.prems obtain e pdbs1 tr1 where
    f: "Open_fn env driverName conns i (pdbs, tr) = Inr (e, pdbs1, tr1)"
    and run: "scatter_run (Open_fn env driverName conns) js (errs[i := e]) (pdbs1, tr1) =
                Inr (errs', pdbs', tr')"
    by (auto split: sum.splits)
  have "length pdbs1 = length pdbs"
    using f by (auto simp: Open_fn_def split: sum.splits prod.splits if_splits)
  then show ?case
    using Cons.IH [OF run] by simp
qed

lemma invoke_in_range: "invoke env h c tr \<noteq> Inl IndexOutOfRange"
  by (simp add: invoke_def split: option.split prod.split)

text \<open>
  C10. Whatever the data source string and however the opens are scheduled, a logical
  database that \<^verbatim>\<open>Open\<close> returns has one slot for each piece between semicolons, empty
  pieces too: one more than the string has semicolons, hence at least one. On it \<^verbatim>\<open>Primary\<close> returns slot 0, and \<^verbatim>\<open>Driver\<close>,
  \<^verbatim>\<open>Begin\<close> and \<^verbatim>\<open>Exec\<close> do not panic with an index out of range.
\<close>

theorem Open_slots:
  assumes "Open env order driverName dataSourceNames tr = Inr ((Some db, err), tr')"
  shows "length (Pdbs db) = length (Split dataSourceNames (CHR '';'')) \<and>
         length (Pdbs db) = Suc (count_list dataSourceNames (CHR '';'')) \<and>
         1 \<le> length (Pdbs db) \<and>
         Primary db = Inr (Pdbs db ! 0) \<and>
         Driver env' db t \<noteq> Inl IndexOutOfRange \<and>
         Begin env' db t \<noteq> Inl IndexOutOfRange \<and>
         Exec env' db q as t \<noteq> Inl IndexOutOfRange"
proof -
  let ?conns = "Split dataSourceNames (CHR '';'')"
  have "\<exists>errs pdbs.
          scatter_run (Open_fn env driverName ?conns) order (replicate (length ?conns) None)
            (replicate (length ?conns) None, tr) = Inr (errs, pdbs, tr') \<and>
          db = \<lparr>Pdbs = pdbs, count = 0\<rparr>"
    using assms
    by (auto simp: Open_def scatter_def Let_def split: sum.splits option.splits prod.splits)
  then obtain errs pdbs where
    run: "scatter_run (Open_fn env driverName ?conns) order (replicate (length ?conns) None)
            (replicate (length ?conns) None, tr) = Inr (errs, pdbs, tr')"
    and db: "db = \<lparr>Pdbs = pdbs, count = 0\<rparr>"
    by (elim exE conjE)
  have "length pdbs = length ?conns"
    using scatter_run_Open_length [OF run] by simp
  then have l: "length (Pdbs db) = Suc (count_list dataSourceNames (CHR '';''))"
    by (simp add: db length_Split)
  then obtain h rest where "Pdbs db = h # rest"
    by (cases "Pdbs db") simp_all
  then have "index (Pdbs db) 0 = Inr (Pdbs db ! 0)"
    by (simp add: index_0)
  then show ?thesis
    using l by (simp add: length_Split Primary_def Driver_def Begin_def Exec_def invoke_in_range)
qed

theorem Open_slots_witness:
  "Open double [3, 1, 0, 2] ''mysql'' ''a;;b;'' [] =
     Inr ((Some \<lparr>Pdbs = [Some ''a'', Some '''', Some ''b'', Some ''''], count = 0\<rparr>, None),
          [OpenEv ''mysql'' '''' (Some '''') None, OpenEv ''mysql'' '''' (Some '''') None,
           OpenEv ''mysql'' ''a'' (Some ''a'') None, OpenEv ''mysql'' ''b'' (Some ''b'') None]) \<and>
   length (Pdbs \<lparr>Pdbs = [Some ''a'', Some '''', Some ''b'', Some ''''], count = 0\<rparr>) =
     Suc (count_list ''a;;b;'' (CHR '';'')) \<and>
   Primary \<lparr>Pdbs = [Some ''a'', Some '''', Some ''b'', Some ''''], count = 0\<rparr> =
     Inr (Some ''a'') \<and>
   Open double [0] ''mysql'' '''' [] =
     Inr ((Some \<lparr>Pdbs = [Some ''''], count = 0\<rparr>, None), [OpenEv ''mysql'' '''' (Some '''') None]) \<and>
   Primary \<lparr>Pdbs = [Some ('''' :: string)], count = 0\<rparr> = Inr (Some '''')"
proof -
  have s: "Split ''a;;b;'' (CHR '';'') = [''a'', '''', ''b'', '''']"
    by (simp add: Split_def)
  have r: "Open double [3, 1, 0, 2] ''mysql'' ''a;;b;'' [] =
     Inr ((Some \<lparr>Pdbs = [Some ''a'', Some '''', Some ''b'', Some ''''], count = 0\<rparr>, None),
          [OpenEv ''mysql'' '''' (Some '''') None, OpenEv ''mysql'' '''' (Some '''') None,
           OpenEv ''mysql'' ''a'' (Some ''a'') None, OpenEv ''mysql'' ''b'' (Some ''b'') None])"
    by (simp add: Open_def scatter_def Open_fn_def slot_def double_def numeral_eq_Suc s)
  have s0: "Split '''' (CHR '';'') = ['''']"
    by (simp add: Split_def)
  have r0: "Open double [0] ''mysql'' '''' [] =
     Inr ((Some \<lparr>Pdbs = [Some ''''], count = 0\<rparr>, None), [OpenEv ''mysql'' '''' (Some '''') None])"
    by (simp add: Open_def scatter_def Open_fn_def slot_def double_def s0)
  show ?thesis
    using Open_slots [OF r, of double "[]" "''q''" "[]"]
      Open_slots [OF r0, of double "[]" "''q''" "[]"] r r0
    by (simp add: s s0 Primary_def index_def)
qed

section \<open>Properties of Prepare\<close>

lemma Prepare_result:
  assumes "distinct order" and order: "set order = {..<length (Pdbs db)}"
    and nonnil: "None \<notin> set (Pdbs db)"
  shows "\<exists>ss errs.
           length ss = length (Pdbs db) \<and> length errs = length (Pdbs db) \<and>
           (\<forall>k < length order.
              (ss ! (order ! k), errs ! (order ! k)) =
                sqldb env
                  (tr @ map (\<lambda>i. CallEv (the (Pdbs db ! i)) c (ss ! i) (errs ! i)) (take k order))
                  (the (Pdbs db ! (order ! k))) c) \<and>
           (case scatter (length (Pdbs db)) (Prepare_fn env db c) order
                   (replicate (length (Pdbs db)) None, tr) of
              Inl p \<Rightarrow> Inl p
            | Inr (Some err, ss', tr') \<Rightarrow> Inr ((None, Some err), tr')
            | Inr (None, ss', tr') \<Rightarrow> Inr ((Some \<lparr>stmts = ss'\<rparr>, None), tr')) =
             Inr (if \<forall>i < length (Pdbs db). errs ! i = None
                  then (Some \<lparr>stmts = ss\<rparr>, None)
                  else (None, combine (failures errs)),
                  tr @ map (\<lambda>i. CallEv (the (Pdbs db ! i)) c (ss ! i) (errs ! i)) order) \<and>
           ((\<exists>i < length (Pdbs db). errs ! i \<noteq> None) \<longrightarrow> combine (failures errs) \<noteq> None)"
proof -
  let ?n = "length (Pdbs db)"
  let ?act = "\<lambda>i tr. sqldb env tr (the (Pdbs db ! i)) c"
  let ?ev = "\<lambda>i. CallEv (the (Pdbs db ! i)) c"
  have fn: "Prepare_fn env db c i (xs, t) =
              Inr (snd (?act i t), xs[i := fst (?act i t)],
                   t @ [?ev i (fst (?act i t)) (snd (?act i t))])"
    if "i \<in> set order" "i < length xs" for i xs t
  proof -
    have i: "i < ?n"
      using that(1) order by simp
    then have "Pdbs db ! i \<in> set (Pdbs db)"
      by simp
    then have "Pdbs db ! i \<noteq> None"
      using nonnil by metis
    then obtain r where "Pdbs db ! i = Some r"
      by auto
    then show ?thesis
      using i that(2) by (simp add: Prepare_fn_def slot_def invoke_def split: prod.split)
  qed
  have "\<forall>i \<in> set order. i < ?n"
    using order by simp
  with fn assms(1) obtain errs ss where
    run: "scatter_run (Prepare_fn env db c) order (replicate ?n None) (replicate ?n None, tr) =
          Inr (errs, ss, tr @ map (\<lambda>i. ?ev i (ss ! i) (errs ! i)) order)"
    and len: "length errs = ?n" "length ss = ?n"
    and acts: "\<forall>k < length order.
              (ss ! (order ! k), errs ! (order ! k)) =
                ?act (order ! k) (tr @ map (\<lambda>i. ?ev i (ss ! i) (errs ! i)) (take k order))"
    using scatter_run_stores [of order "Prepare_fn env db c" ?act ?ev ?n
        "replicate ?n None" "replicate ?n None" tr]
    by auto
  have all: "(\<forall>i < ?n. errs ! i = None) = (combine (failures errs) = None)"
    using len by (simp add: combine_None_iff failures_Nil_iff failures_nth_None)
  have sc: "scatter ?n (Prepare_fn env db c) order (replicate ?n None, tr) =
             Inr (combine (failures errs), ss, tr @ map (\<lambda>i. ?ev i (ss ! i) (errs ! i)) order)"
    using run by (simp add: scatter_def)
  have res: "(case scatter ?n (Prepare_fn env db c) order (replicate ?n None, tr) of
              Inl p \<Rightarrow> Inl p
            | Inr (Some err, ss', tr') \<Rightarrow> Inr ((None, Some err), tr')
            | Inr (None, ss', tr') \<Rightarrow> Inr ((Some \<lparr>stmts = ss'\<rparr>, None), tr')) =
             Inr (if \<forall>i < ?n. errs ! i = None
                  then (Some \<lparr>stmts = ss\<rparr>, None)
                  else (None, combine (failures errs)),
                  tr @ map (\<lambda>i. ?ev i (ss ! i) (errs ! i)) order)"
    by (cases "combine (failures errs)") (simp_all add: sc all)
  have some: "combine (failures errs) \<noteq> None" if "\<exists>i < ?n. errs ! i \<noteq> None"
    using that all by auto
  show ?thesis
  proof (intro exI [of _ ss] exI [of _ errs] conjI impI)
    show "length ss = ?n" and "length errs = ?n"
      by (rule len)+
    show "\<forall>k < length order.
              (ss ! (order ! k), errs ! (order ! k)) =
                ?act (order ! k) (tr @ map (\<lambda>i. ?ev i (ss ! i) (errs ! i)) (take k order))"
      by (rule acts)
    show "combine (failures errs) \<noteq> None" if "\<exists>i < ?n. errs ! i \<noteq> None"
      using that by (rule some)
  qed (rule res)
qed

text \<open>
  C6. On a logical database without nil slots, whatever the order in which the
  concurrent preparations take effect, \<^verbatim>\<open>Prepare\<close> and \<^verbatim>\<open>PrepareContext\<close> call the
  method of the same name once on every slot's handle. \<open>ss ! i\<close> and \<open>errs ! i\<close> are
  what the handle of slot \<open>i\<close> returned. If every preparation succeeded the result is
  the statement whose list of per-slot statements is \<open>ss\<close>, as long as the slot list and
  in its order, and no error. If any preparation failed the result is no statement and
  an error.
\<close>

theorem Prepare_all_or_nothing:
  assumes "distinct order" and "set order = {..<length (Pdbs db)}"
    and "None \<notin> set (Pdbs db)"
  shows "(\<exists>ss errs.
            length ss = length (Pdbs db) \<and> length errs = length (Pdbs db) \<and>
            (\<forall>k < length order.
               (ss ! (order ! k), errs ! (order ! k)) =
                 sqldb env
                   (tr @ map (\<lambda>i. CallEv (the (Pdbs db ! i)) (SQLDB_Prepare q) (ss ! i) (errs ! i))
                           (take k order))
                   (the (Pdbs db ! (order ! k))) (SQLDB_Prepare q)) \<and>
            Prepare env order db q tr =
              Inr (if \<forall>i < length (Pdbs db). errs ! i = None
                   then (Some \<lparr>stmts = ss\<rparr>, None)
                   else (None, combine (failures errs)),
                   tr @ map (\<lambda>i. CallEv (the (Pdbs db ! i)) (SQLDB_Prepare q) (ss ! i) (errs ! i))
                          order) \<and>
            ((\<exists>i < length (Pdbs db). errs ! i \<noteq> None) \<longrightarrow> combine (failures errs) \<noteq> None)) \<and>
         (\<exists>ss errs.
            length ss = length (Pdbs db) \<and> length errs = length (Pdbs db) \<and>
            (\<forall>k < length order.
               (ss ! (order ! k), errs ! (order ! k)) =
                 sqldb env
                   (tr @ map (\<lambda>i. CallEv (the (Pdbs db ! i)) (SQLDB_PrepareContext ctx q)
                                   (ss ! i) (errs ! i))
                           (take k order))
                   (the (Pdbs db ! (order ! k))) (SQLDB_PrepareContext ctx q)) \<and>
            PrepareContext env order db ctx q tr =
              Inr (if \<forall>i < length (Pdbs db). errs ! i = None
                   then (Some \<lparr>stmts = ss\<rparr>, None)
                   else (None, combine (failures errs)),
                   tr @ map (\<lambda>i. CallEv (the (Pdbs db ! i)) (SQLDB_PrepareContext ctx q)
                                  (ss ! i) (errs ! i))
                          order) \<and>
            ((\<exists>i < length (Pdbs db). errs ! i \<noteq> None) \<longrightarrow> combine (failures errs) \<noteq> None))"
  unfolding Prepare_def PrepareContext_def Let_def
  by (intro conjI Prepare_result [OF assms])

theorem Prepare_all_or_nothing_witness:
  "distinct [1, 2, 0 :: nat] \<and>
   set [1, 2, 0 :: nat] =
     {..<length (Pdbs \<lparr>Pdbs = [Some ''p'', Some ''r1'', Some ''r2''], count = 0\<rparr>)} \<and>
   None \<notin> set (Pdbs \<lparr>Pdbs = [Some ''p'', Some ''r1'', Some ''r2''], count = 0\<rparr>) \<and>
   Prepare double [1, 2, 0] \<lparr>Pdbs = [Some ''p'', Some ''r1'', Some ''r2''], count = 0\<rparr>
       ''SELECT ?'' [] =
     Inr ((Some \<lparr>stmts = [Some 2, Some 0, Some 1]\<rparr>, None),
          [CallEv ''r1'' (SQLDB_Prepare ''SELECT ?'') (Some 0) None,
           CallEv ''r2'' (SQLDB_Prepare ''SELECT ?'') (Some 1) None,
           CallEv ''p'' (SQLDB_Prepare ''SELECT ?'') (Some 2) None]) \<and>
   distinct [1, 0 :: nat] \<and>
   set [1, 0 :: nat] = {..<length (Pdbs \<lparr>Pdbs = [Some ''p'', Some ''flaky''], count = 0\<rparr>)} \<and>
   None \<notin> set (Pdbs \<lparr>Pdbs = [Some ''p'', Some ''flaky''], count = 0\<rparr>) \<and>
   PrepareContext double [1, 0] \<lparr>Pdbs = [Some ''p'', Some ''flaky''], count = 0\<rparr>
       (Context 1) ''SELECT ?'' [] =
     Inr ((None, Some (Cause ''broken pipe'')),
          [CallEv ''flaky'' (SQLDB_PrepareContext (Context 1) ''SELECT ?'') None
             (Some (Cause ''broken pipe'')),
           CallEv ''p'' (SQLDB_PrepareContext (Context 1) ''SELECT ?'') (Some 1) None])"
proof -
  have d: "distinct [1, 2, 0 :: nat]"
    by simp
  have o: "set [1, 2, 0 :: nat] =
     {..<length (Pdbs \<lparr>Pdbs = [Some ''p'', Some ''r1'', Some ''r2''], count = 0\<rparr>)}"
    by (auto simp: numeral_eq_Suc lessThan_Suc)
  have n: "None \<notin> set (Pdbs \<lparr>Pdbs = [Some ''p'', Some ''r1'', Some ''r2''], count = 0\<rparr>)"
    by simp
  have r: "Prepare double [1, 2, 0] \<lparr>Pdbs = [Some ''p'', Some ''r1'', Some ''r2''], count = 0\<rparr>
       ''SELECT ?'' [] =
     Inr ((Some \<lparr>stmts = [Some 2, Some 0, Some 1]\<rparr>, None),
          [CallEv ''r1'' (SQLDB_Prepare ''SELECT ?'') (Some 0) None,
           CallEv ''r2'' (SQLDB_Prepare ''SELECT ?'') (Some 1) None,
           CallEv ''p'' (SQLDB_Prepare ''SELECT ?'') (Some 2) None])"
    by (simp add: Prepare_def scatter_def Prepare_fn_def slot_def invoke_def double_def
        numeral_eq_Suc)
  have d': "distinct [1, 0 :: nat]"
    by simp
  have o': "set [1, 0 :: nat] =
     {..<length (Pdbs \<lparr>Pdbs = [Some ''p'', Some ''flaky''], count = 0\<rparr>)}"
    by (auto simp: numeral_eq_Suc lessThan_Suc)
  have n': "None \<notin> set (Pdbs \<lparr>Pdbs = [Some ''p'', Some ''flaky''], count = 0\<rparr>)"
    by simp
  have r': "PrepareContext double [1, 0] \<lparr>Pdbs = [Some ''p'', Some ''flaky''], count = 0\<rparr>
       (Context 1) ''SELECT ?'' [] =
     Inr ((None, Some (Cause ''broken pipe'')),
          [CallEv ''flaky'' (SQLDB_PrepareContext (Context 1) ''SELECT ?'') None
             (Some (Cause ''broken pipe'')),
           CallEv ''p'' (SQLDB_PrepareContext (Context 1) ''SELECT ?'') (Some 1) None])"
    by (simp add: PrepareContext_def scatter_def Prepare_fn_def slot_def invoke_def double_def
        numeral_eq_Suc)
  show ?thesis
    using Prepare_all_or_nothing [OF d o n, of double "[]" "''SELECT ?''" "Context 1"]
      Prepare_all_or_nothing [OF d' o' n', of double "[]" "''SELECT ?''" "Context 1"]
      d o n r d' o' n' r'
    by simp
qed

section \<open>The slot list is never written\<close>

lemma Replica_Pdbs:
  assumes "Replica db = Inr (h, db')"
  shows "Pdbs db' = Pdbs db"
  using assms replica_Pdbs [of db "slice_len (Pdbs db)"]
  by (auto simp: Replica_def split: prod.splits sum.splits)

lemma map_sum_id_Inr: "(map_sum id f x = Inr y) = (\<exists>z. x = Inr z \<and> y = f z)"
  by (cases x) auto

lemma step_Pdbs:
  assumes "step env order a (db, tr) = Inr (r, db', tr')"
  shows "Pdbs db' = Pdbs db"
proof (cases a)
  case (Method c)
  show ?thesis
  proof (cases c)
    case (SQLDB_Query q as)
    then show ?thesis
      using assms Method
      by (auto simp: map_sum_id_Inr Query_def dest: Replica_Pdbs split: sum.splits)
  next
    case (SQLDB_QueryContext ctx q as)
    then show ?thesis
      using assms Method
      by (auto simp: map_sum_id_Inr QueryContext_def dest: Replica_Pdbs split: sum.splits)
  next
    case (SQLDB_QueryRow q as)
    then show ?thesis
      using assms Method
      by (auto simp: map_sum_id_Inr QueryRow_def dest: Replica_Pdbs split: sum.splits)
  next
    case (SQLDB_QueryRowContext ctx q as)
    then show ?thesis
      using assms Method
      by (auto simp: map_sum_id_Inr QueryRowContext_def dest: Replica_Pdbs split: sum.splits)
  qed (use assms Method in \<open>auto simp: map_sum_id_Inr\<close>)
next
  case Op_Slave
  then show ?thesis
    using assms by (auto simp: map_sum_id_Inr Slave_def dest: Replica_Pdbs)
next
  case Op_Replica
  then show ?thesis
    using assms by (auto simp: map_sum_id_Inr dest: Replica_Pdbs)
next
  case Op_Master
  then show ?thesis
    using assms by (auto simp: map_sum_id_Inr)
next
  case Op_Primary
  then show ?thesis
    using assms by (auto simp: map_sum_id_Inr)
qed

text \<open>
  C9. No sequence of public operations, whatever the interleavings of their fan-outs,
  changes the slot list of the logical database: it has the same length and the same
  handle at every index afterwards.
\<close>

theorem run_keeps_Pdbs:
  assumes "run env ops (db, tr) = Inr (db', tr')"
  shows "Pdbs db' = Pdbs db \<and> length (Pdbs db') = length (Pdbs db) \<and>
         (\<forall>i < length (Pdbs db). Pdbs db' ! i = Pdbs db ! i)"
proof -
  have "Pdbs db' = Pdbs db"
    using assms
  proof (induction ops arbitrary: db tr)
    case Nil
    then show ?case by simp
  next
    case (Cons x rest)
    obtain order a where x: "x = (order, a)"
      by (cases x)
    from Cons.prems obtain r db1 tr1 where
      s: "step env order a (db, tr) = Inr (r, db1, tr1)"
      and rest: "run env rest (db1, tr1) = Inr (db', tr')"
      unfolding x by (auto split: sum.splits)
    have "Pdbs db' = Pdbs db1"
      using rest by (rule Cons.IH)
    also have "Pdbs db1 = Pdbs db"
      using s by (rule step_Pdbs)
    finally show ?case .
  qed
  then show ?thesis by simp
qed

theorem run_keeps_Pdbs_witness:
  "run double
     [([], Method (SQLDB_Exec ''UPDATE t'' [Arg 1])),
      ([], Method (SQLDB_Query ''SELECT 1'' [])),
      ([2, 0, 1], Method (SQLDB_Prepare ''SELECT ?'')),
      ([], Method (SQLDB_SetMaxIdleConns 5)),
      ([], Op_Replica),
      ([1, 2, 0], Method SQLDB_Ping)]
     (\<lparr>Pdbs = [Some ''p'', Some ''r1'', Some ''r2''], count = 0\<rparr>, []) =
   Inr (\<lparr>Pdbs = [Some ''p'', Some ''r1'', Some ''r2''], count = 2\<rparr>,
        [CallEv ''p'' (SQLDB_Exec ''UPDATE t'' [Arg 1]) (Some 0) None,
         CallEv ''r2'' (SQLDB_Query ''SELECT 1'' []) (Some 1) None,
         CallEv ''r2'' (SQLDB_Prepare ''SELECT ?'') (Some 2) None,
         CallEv ''p'' (SQLDB_Prepare ''SELECT ?'') (Some 3) None,
         CallEv ''r1'' (SQLDB_Prepare ''SELECT ?'') (Some 4) None,
         CallEv ''p'' (SQLDB_SetMaxIdleConns 5) (Some 5) None,
         CallEv ''r1'' (SQLDB_SetMaxIdleConns 5) (Some 6) None,
         CallEv ''r2'' (SQLDB_SetMaxIdleConns 5) (Some 7) None,
         CallEv ''r1'' SQLDB_Ping (Some 8) None,
         CallEv ''r2'' SQLDB_Ping (Some 9) None,
         CallEv ''p'' SQLDB_Ping (Some 10) None]) \<and>
   Pdbs \<lparr>Pdbs = [Some ''p'', Some ''r1'', Some ''r2''], count = 2 :: 64 word\<rparr> =
   Pdbs \<lparr>Pdbs = [Some ''p'', Some ''r1'', Some ''r2''], count = 0 :: 64 word\<rparr>"
proof -
  have r: "run double
     [([], Method (SQLDB_Exec ''UPDATE t'' [Arg 1])),
      ([], Method (SQLDB_Query ''SELECT 1'' [])),
      ([2, 0, 1], Method (SQLDB_Prepare ''SELECT ?'')),
      ([], Method (SQLDB_SetMaxIdleConns 5)),
      ([], Op_Replica),
      ([1, 2, 0], Method SQLDB_Ping)]
     (\<lparr>Pdbs = [Some ''p'', Some ''r1'', Some ''r2''], count = 0\<rparr>, []) =
   Inr (\<lparr>Pdbs = [Some ''p'', Some ''r1'', Some ''r2''], count = 2\<rparr>,
        [CallEv ''p'' (SQLDB_Exec ''UPDATE t'' [Arg 1]) (Some 0) None,
         CallEv ''r2'' (SQLDB_Query ''SELECT 1'' []) (Some 1) None,
         CallEv ''r2'' (SQLDB_Prepare ''SELECT ?'') (Some 2) None,
         CallEv ''p'' (SQLDB_Prepare ''SELECT ?'') (Some 3) None,
         CallEv ''r1'' (SQLDB_Prepare ''SELECT ?'') (Some 4) None,
         CallEv ''p'' (SQLDB_SetMaxIdleConns 5) (Some 5) None,
         CallEv ''r1'' (SQLDB_SetMaxIdleConns 5) (Some 6) None,
         CallEv ''r2'' (SQLDB_SetMaxIdleConns 5) (Some 7) None,
         CallEv ''r1'' SQLDB_Ping (Some 8) None,
         CallEv ''r2'' SQLDB_Ping (Some 9) None,
         CallEv ''p'' SQLDB_Ping (Some 10) None])"
    by code_simp
  show ?thesis
    using run_keeps_Pdbs [OF r] r by simp
qed

end
